theory Spec2Isabelle
  imports Main "HOL-Library.Multiset" "HOL-Library.AList"
begin

section \<open>The batch augmentor of remx/pre-processing-01.ipynb\<close>

text \<open>
  The notebook defines one function, \<^verbatim>\<open>augment(folder_path, quantity)\<close>. It walks the
  tree under \<^verbatim>\<open>folder_path\<close> with \<^verbatim>\<open>os.walk\<close>, lists
  \<^verbatim>\<open>os.path.join(folder_path, dirname)\<close> for every subdirectory name it meets, draws a
  sample of the listing with \<^verbatim>\<open>np.random.choice(..., replace=False)\<close>, and for every
  sampled name ending in \<^verbatim>\<open>.jpg\<close> or \<^verbatim>\<open>.png\<close> reads the image, makes sure
  the \<^verbatim>\<open>augmented\<close> directory exists, transforms the image and writes it.

  The embedding keeps that shape. A path is the list of its components (so
  \<^verbatim>\<open>os.path.join(a, name)\<close> is \<open>a @ [name]\<close>, the empty list being the working
  directory); the file system is an association list from paths to nodes; an exception
  is a value of \<open>error\<close>. The random generator, the image codec (\<^verbatim>\<open>cv2.imread\<close>,
  \<^verbatim>\<open>cv2.imwrite\<close>) and the transform of \<^verbatim>\<open>utils.images\<close> are not part of the
  notebook: they are parameters, collected in the record \<open>env\<close>. Symbolic links are not
  modelled.
\<close>

subsection \<open>Data\<close>

datatype error =
    FileNotFoundError
  | NotADirectoryError
  | FileExistsError
  | ValueError
  | IndexError
  | CollaboratorError string

datatype node = File string | Dir

type_synonym path = "string list"

type_synonym fs = "(path \<times> node) list"

text \<open>The calls that touch the file system, in the order the run makes them.\<close>

datatype event = Listed path | Loaded path | MadeDir path | Wrote path

record ('img, 'g) env =
  choice :: "'g \<Rightarrow> string list \<Rightarrow> nat \<Rightarrow> string list \<times> 'g"
  imread :: "fs \<Rightarrow> path \<Rightarrow> error + 'img"
  transform :: "'img \<Rightarrow> error + 'img"
  imwrite :: "path \<Rightarrow> 'img \<Rightarrow> fs \<Rightarrow> error option \<times> fs"

record 'g state =
  fs_of :: fs
  gen :: 'g
  log :: "event list"

datatype outcome = Finished | Raised error | OutOfFuel

subsection \<open>Strings\<close>

text \<open>\<^verbatim>\<open>str.endswith(suffix)\<close>.\<close>

definition endswith :: "string \<Rightarrow> string \<Rightarrow> bool" where
  "endswith s suf = (length suf \<le> length s \<and> drop (length s - length suf) s = suf)"

text \<open>\<^verbatim>\<open>str.split(sep)\<close> for a separator of one character: never the empty list.\<close>

fun str_split :: "string \<Rightarrow> char \<Rightarrow> string list" where
  "str_split [] c = [[]]"
| "str_split (x # xs) c =
     (if x = c then [] # str_split xs c
      else (case str_split xs c of
              [] \<Rightarrow> [[x]]
            | w # ws \<Rightarrow> (x # w) # ws))"

text \<open>\<^verbatim>\<open>xs[i]\<close> for a non-negative index: IndexError out of range.\<close>

definition index :: "'a list \<Rightarrow> nat \<Rightarrow> error + 'a" where
  "index xs i = (if i < length xs then Inr (xs ! i) else Inl IndexError)"

text \<open>
  The file name of the output:
  \<^verbatim>\<open>filename.split(".")[0] + "-aug." + filename.split(".")[1]\<close>.
\<close>

definition output_name :: "string \<Rightarrow> error + string" where
  "output_name filename =
     (case index (str_split filename (CHR ''.'')) 0 of
        Inl e \<Rightarrow> Inl e
      | Inr stem \<Rightarrow>
          (case index (str_split filename (CHR ''.'')) 1 of
             Inl e \<Rightarrow> Inl e
           | Inr ext \<Rightarrow> Inr (stem @ ''-aug.'' @ ext)))"

text \<open>The test \<^verbatim>\<open>filename.endswith(".jpg") or filename.endswith(".png")\<close>.\<close>

definition eligible :: "string \<Rightarrow> bool" where
  "eligible filename = (endswith filename ''.jpg'' \<or> endswith filename ''.png'')"

subsection \<open>The file system\<close>

definition lookup :: "fs \<Rightarrow> path \<Rightarrow> node option" where
  "lookup f p = map_of f p"

text \<open>\<^verbatim>\<open>os.path.exists\<close> and \<^verbatim>\<open>os.path.isdir\<close>; the working directory always exists.\<close>

definition path_exists :: "fs \<Rightarrow> path \<Rightarrow> bool" where
  "path_exists f p = (p = [] \<or> lookup f p \<noteq> None)"

definition path_isdir :: "fs \<Rightarrow> path \<Rightarrow> bool" where
  "path_isdir f p = (p = [] \<or> lookup f p = Some Dir)"

text \<open>The names directly under a directory, each once.\<close>

definition entries :: "fs \<Rightarrow> path \<Rightarrow> string list" where
  "entries f p = remdups (map last (filter (\<lambda>q. q \<noteq> [] \<and> butlast q = p) (map fst f)))"

text \<open>\<^verbatim>\<open>os.listdir(path)\<close>.\<close>

definition listdir :: "fs \<Rightarrow> path \<Rightarrow> error + string list" where
  "listdir f p =
     (if path_isdir f p then Inr (entries f p)
      else if path_exists f p then Inl NotADirectoryError
      else Inl FileNotFoundError)"

text \<open>\<^verbatim>\<open>os.mkdir(path)\<close>.\<close>

definition mkdir :: "path \<Rightarrow> fs \<Rightarrow> error + fs" where
  "mkdir p f =
     (if path_exists f p then Inl FileExistsError
      else if path_isdir f (butlast p) then Inr (f @ [(p, Dir)])
      else if path_exists f (butlast p) then Inl NotADirectoryError
      else Inl FileNotFoundError)"

text \<open>
  \<^verbatim>\<open>os.makedirs(name)\<close> with \<^verbatim>\<open>exist_ok=False\<close>: a missing parent is made first
  (a FileExistsError from that recursive call is passed over), then the leaf.
\<close>

function makedirs :: "path \<Rightarrow> fs \<Rightarrow> error + fs" where
  "makedirs p f =
     (if p \<noteq> [] \<and> butlast p \<noteq> [] \<and> \<not> path_exists f (butlast p) then
        (case makedirs (butlast p) f of
           Inl e \<Rightarrow> (if e = FileExistsError then mkdir p f else Inl e)
         | Inr f' \<Rightarrow> mkdir p f')
      else mkdir p f)"
  by pat_completeness auto
termination
  by (relation "measure (\<lambda>(p, f). length p)") auto

declare makedirs.simps [simp del]

text \<open>
  One step of \<^verbatim>\<open>os.walk\<close> at a directory: \<^verbatim>\<open>scandir\<close> splits its entries into
  directory names and the others. With the default \<^verbatim>\<open>onerror=None\<close> a directory that
  cannot be scanned is passed over in silence: \<open>None\<close>.
\<close>

definition scan :: "fs \<Rightarrow> path \<Rightarrow> (string list \<times> string list) option" where
  "scan f dirpath =
     (if path_isdir f dirpath then
        Some (filter (\<lambda>n. path_isdir f (dirpath @ [n])) (entries f dirpath),
              filter (\<lambda>n. \<not> path_isdir f (dirpath @ [n])) (entries f dirpath))
      else None)"

subsection \<open>augment\<close>

definition record_event :: "event \<Rightarrow> 'g state \<Rightarrow> 'g state" where
  "record_event e s = s\<lparr>log := log s @ [e]\<rparr>"

text \<open>
  \<^verbatim>\<open>if not os.path.exists(output_dir): os.makedirs(output_dir)\<close>
\<close>

definition ensure_dir :: "path \<Rightarrow> 'g state \<Rightarrow> error option \<times> 'g state" where
  "ensure_dir output_dir s =
     (if \<not> path_exists (fs_of s) output_dir then
        (let s1 = record_event (MadeDir output_dir) s in
         case makedirs output_dir (fs_of s1) of
           Inl e \<Rightarrow> (Some e, s1)
         | Inr f' \<Rightarrow> (None, s1\<lparr>fs_of := f'\<rparr>))
      else (None, s))"

text \<open>
  \<^verbatim>\<open>augmented_img = augmentation_transforms()(image=img)["image"]\<close> and
  \<^verbatim>\<open>cv2.imwrite(output_path, augmented_img)\<close>
\<close>

definition transform_and_write ::
  "('img, 'g) env \<Rightarrow> path \<Rightarrow> 'img \<Rightarrow> 'g state \<Rightarrow> error option \<times> 'g state" where
  "transform_and_write env output_path img s =
     (case transform env img of
        Inl e \<Rightarrow> (Some e, s)
      | Inr augmented_img \<Rightarrow>
          (let s1 = record_event (Wrote output_path) s;
               (r, f') = imwrite env output_path augmented_img (fs_of s1)
           in (r, s1\<lparr>fs_of := f'\<rparr>)))"

text \<open>The body of the loop over the sampled file names.\<close>

definition process_file ::
  "('img, 'g) env \<Rightarrow> path \<Rightarrow> string \<Rightarrow> 'g state \<Rightarrow> error option \<times> 'g state" where
  "process_file env nested_folder_path filename s =
     (if eligible filename then
        (let image = nested_folder_path @ [filename];
             s1 = record_event (Loaded image) s
         in case imread env (fs_of s1) image of
              Inl e \<Rightarrow> (Some e, s1)
            | Inr img \<Rightarrow>
                (let output_dir = nested_folder_path @ [''augmented'']
                 in case ensure_dir output_dir s1 of
                      (Some e, s2) \<Rightarrow> (Some e, s2)
                    | (None, s2) \<Rightarrow>
                        (case output_name filename of
                           Inl e \<Rightarrow> (Some e, s2)
                         | Inr name \<Rightarrow>
                             transform_and_write env (output_dir @ [name]) img s2)))
      else (None, s))"

fun process_files ::
  "('img, 'g) env \<Rightarrow> path \<Rightarrow> string list \<Rightarrow> 'g state \<Rightarrow> error option \<times> 'g state" where
  "process_files env nested_folder_path [] s = (None, s)"
| "process_files env nested_folder_path (filename # rest) s =
     (case process_file env nested_folder_path filename s of
        (Some e, s') \<Rightarrow> (Some e, s')
      | (None, s') \<Rightarrow> process_files env nested_folder_path rest s')"

text \<open>
  \<^verbatim>\<open>np.random.choice(files, min(quantity, len(files)), replace=False)\<close>: a negative
  size is a ValueError; otherwise the generator of \<open>env\<close> draws.
\<close>

definition sample ::
  "('img, 'g) env \<Rightarrow> string list \<Rightarrow> int \<Rightarrow> 'g state \<Rightarrow> error + (string list \<times> 'g state)" where
  "sample env files quantity s =
     (let k = min quantity (int (length files))
      in if k < 0 then Inl ValueError
         else (let (picked, g') = choice env (gen s) files (nat k)
               in Inr (picked, s\<lparr>gen := g'\<rparr>)))"

text \<open>The body of the loop over \<^verbatim>\<open>dirnames\<close>. The listed path is built from
  \<^verbatim>\<open>folder_path\<close>, the argument of \<^verbatim>\<open>augment\<close>, as the notebook does.\<close>

definition process_dirname ::
  "('img, 'g) env \<Rightarrow> path \<Rightarrow> int \<Rightarrow> string \<Rightarrow> 'g state \<Rightarrow> error option \<times> 'g state" where
  "process_dirname env folder_path quantity dirname s =
     (if dirname \<noteq> ''augmented'' then
        (let nested_folder_path = folder_path @ [dirname];
             s1 = record_event (Listed nested_folder_path) s
         in case listdir (fs_of s1) nested_folder_path of
              Inl e \<Rightarrow> (Some e, s1)
            | Inr files \<Rightarrow>
                (case sample env files quantity s1 of
                   Inl e \<Rightarrow> (Some e, s1)
                 | Inr (picked, s2) \<Rightarrow>
                     process_files env nested_folder_path picked s2))
      else (None, s))"

fun process_dirnames ::
  "('img, 'g) env \<Rightarrow> path \<Rightarrow> int \<Rightarrow> string list \<Rightarrow> 'g state \<Rightarrow> error option \<times> 'g state" where
  "process_dirnames env folder_path quantity [] s = (None, s)"
| "process_dirnames env folder_path quantity (dirname # rest) s =
     (case process_dirname env folder_path quantity dirname s of
        (Some e, s') \<Rightarrow> (Some e, s')
      | (None, s') \<Rightarrow> process_dirnames env folder_path quantity rest s')"

text \<open>
  The loop \<^verbatim>\<open>for dirpath, dirnames, filenames in os.walk(folder_path)\<close>. The generator
  is top-down and lazy: a directory is scanned when the loop reaches it, after the bodies
  of the directories before it have run. \<open>pending\<close> holds the directories still to be
  scanned, in the order of the walk; the fuel bounds the number of them the loop takes.
\<close>

fun walk_loop ::
  "nat \<Rightarrow> ('img, 'g) env \<Rightarrow> path \<Rightarrow> int \<Rightarrow> path list \<Rightarrow> 'g state \<Rightarrow> outcome \<times> 'g state" where
  "walk_loop fuel env folder_path quantity [] s = (Finished, s)"
| "walk_loop 0 env folder_path quantity (dirpath # pending) s = (OutOfFuel, s)"
| "walk_loop (Suc fuel) env folder_path quantity (dirpath # pending) s =
     (case scan (fs_of s) dirpath of
        None \<Rightarrow> walk_loop fuel env folder_path quantity pending s
      | Some (dirnames, filenames) \<Rightarrow>
          (case process_dirnames env folder_path quantity dirnames s of
             (Some e, s') \<Rightarrow> (Raised e, s')
           | (None, s') \<Rightarrow>
               walk_loop fuel env folder_path quantity
                 (map (\<lambda>dirname. dirpath @ [dirname]) dirnames @ pending) s'))"

definition augment ::
  "('img, 'g) env \<Rightarrow> nat \<Rightarrow> path \<Rightarrow> int \<Rightarrow> fs \<Rightarrow> 'g \<Rightarrow> outcome \<times> 'g state" where
  "augment env fuel folder_path quantity f g =
     walk_loop fuel env folder_path quantity [folder_path] \<lparr>fs_of = f, gen = g, log = []\<rparr>"

subsection \<open>What a run may record\<close>

text \<open>
  The events a run of \<open>augment\<close> on \<open>folder_path\<close> can record: a listing of
  \<open>folder_path/d\<close>, a load of \<open>folder_path/d/name\<close> with an eligible name, the making of
  \<open>folder_path/d/augmented\<close>, and a write below it, always with \<open>d\<close> other than
  \<open>augmented\<close>.
\<close>

fun event_ok :: "path \<Rightarrow> event \<Rightarrow> bool" where
  "event_ok fp (Listed p) = (p \<noteq> [] \<and> butlast p = fp \<and> last p \<noteq> ''augmented'')"
| "event_ok fp (Loaded p) =
     (p \<noteq> [] \<and> butlast p \<noteq> [] \<and> butlast (butlast p) = fp \<and>
      last (butlast p) \<noteq> ''augmented'' \<and> eligible (last p))"
| "event_ok fp (MadeDir p) =
     (p \<noteq> [] \<and> butlast p \<noteq> [] \<and> butlast (butlast p) = fp \<and>
      last (butlast p) \<noteq> ''augmented'' \<and> last p = ''augmented'')"
| "event_ok fp (Wrote p) =
     (p \<noteq> [] \<and> butlast p \<noteq> [] \<and> butlast (butlast p) \<noteq> [] \<and>
      butlast (butlast (butlast p)) = fp \<and>
      last (butlast (butlast p)) \<noteq> ''augmented'' \<and> last (butlast p) = ''augmented'')"

subsection \<open>Assumptions on the collaborators, and frames\<close>

text \<open>
  What \<^verbatim>\<open>np.random.choice(files, k, replace=False)\<close> promises for \<open>k\<close> up to the
  length of the listing: \<open>k\<close> names, drawn from the listing without replacement.
\<close>

definition valid_choice :: "('g \<Rightarrow> string list \<Rightarrow> nat \<Rightarrow> string list \<times> 'g) \<Rightarrow> bool" where
  "valid_choice ch =
     (\<forall>g xs k. k \<le> length xs \<longrightarrow>
        length (fst (ch g xs k)) = k \<and> mset (fst (ch g xs k)) \<subseteq># mset xs)"

text \<open>A writer that touches nothing but the path it is given.\<close>

definition imwrite_local :: "(path \<Rightarrow> 'img \<Rightarrow> fs \<Rightarrow> error option \<times> fs) \<Rightarrow> bool" where
  "imwrite_local w = (\<forall>p img f q. q \<noteq> p \<longrightarrow> lookup (snd (w p img f)) q = lookup f q)"

text \<open>
  How a file system may differ after a pass over one category folder, and after a whole
  run: a new directory named \<open>augmented\<close>, and anything directly inside a directory of
  that name.
\<close>

definition pass_frame :: "path \<Rightarrow> fs \<Rightarrow> fs \<Rightarrow> bool" where
  "pass_frame nested f f' =
     (\<forall>q. lookup f' q = lookup f q \<or>
          (q = nested @ [''augmented''] \<and> lookup f q = None \<and> lookup f' q = Some Dir) \<or>
          (\<exists>n. q = nested @ [''augmented'', n]))"

definition outputs_only :: "fs \<Rightarrow> fs \<Rightarrow> bool" where
  "outputs_only f f' =
     (\<forall>q. lookup f' q = lookup f q \<or>
          (last q = ''augmented'' \<and> lookup f q = None \<and> lookup f' q = Some Dir) \<or>
          (q \<noteq> [] \<and> butlast q \<noteq> [] \<and> last (butlast q) = ''augmented''))"

text \<open>A step that leaves the file system alone and records nothing but listings.\<close>

definition only_listings :: "'g state \<Rightarrow> 'g state \<Rightarrow> bool" where
  "only_listings s s' =
     (fs_of s' = fs_of s \<and>
      (\<exists>evs. log s' = log s @ evs \<and> (\<forall>e\<in>set evs. \<exists>p. e = Listed p)))"

subsection \<open>Reading a log\<close>

text \<open>The images a log shows as loaded, and the paths it shows as written, in order.\<close>

fun loaded :: "event list \<Rightarrow> path list" where
  "loaded [] = []"
| "loaded (Loaded p # es) = p # loaded es"
| "loaded (e # es) = loaded es"

fun written :: "event list \<Rightarrow> path list" where
  "written [] = []"
| "written (Wrote p # es) = p # written es"
| "written (e # es) = written es"

text \<open>
  \<^verbatim>\<open>output_dir + "/" + filename.split(".")[0] + "-aug." + filename.split(".")[1]\<close>
  for a name with a dot.
\<close>

definition output_path :: "path \<Rightarrow> string \<Rightarrow> path" where
  "output_path nested_folder_path filename =
     nested_folder_path @ [''augmented''] @
       [case output_name filename of Inr name \<Rightarrow> name | Inl e \<Rightarrow> []]"

subsection \<open>The output name in the words of the specification\<close>

text \<open>
  The specification describes the output name by the text before and after the first
  dot of the source name. These definitions follow its words, to be compared with
  \<open>output_name\<close>.
\<close>

definition before_first_dot :: "string \<Rightarrow> string" where
  "before_first_dot s = takeWhile (\<lambda>x. x \<noteq> CHR ''.'') s"

definition after_first_dot :: "string \<Rightarrow> string" where
  "after_first_dot s = tl (dropWhile (\<lambda>x. x \<noteq> CHR ''.'') s)"

definition claimed_output_name :: "string \<Rightarrow> string" where
  "claimed_output_name s = before_first_dot s @ ''-aug.'' @ after_first_dot s"

subsection \<open>Stub collaborators for concrete runs\<close>

text \<open>
  Stand-ins for numpy, cv2 and \<^verbatim>\<open>utils.images\<close> where a run is evaluated. The
  generator draws the last \<open>k\<close> names of the listing. An image is the content of its
  file, or \<open>None\<close>, the value \<^verbatim>\<open>cv2.imread\<close> returns for a file it cannot read or
  decode (here: a missing path, a directory, an empty file); the reader never raises.
  The transform reverses the content and hands \<open>None\<close> on. The writer follows
  \<^verbatim>\<open>cv2.imwrite\<close>: an empty image and a name with no known image extension raise;
  a target that cannot be opened (its parent is not a directory, or it is a directory
  itself) is left alone with no exception, which is the case in which cv2 returns
  \<^verbatim>\<open>False\<close>; \<open>augment\<close> discards the value returned.
\<close>

definition stub_choice :: "nat \<Rightarrow> string list \<Rightarrow> nat \<Rightarrow> string list \<times> nat" where
  "stub_choice g xs k = (take k (rev xs), Suc g)"

definition stub_imread :: "fs \<Rightarrow> path \<Rightarrow> error + string option" where
  "stub_imread f p =
     (case lookup f p of
        Some (File c) \<Rightarrow> (if c = [] then Inr None else Inr (Some c))
      | _ \<Rightarrow> Inr None)"

definition known_extension :: "string \<Rightarrow> bool" where
  "known_extension name =
     (endswith name ''.jpg'' \<or> endswith name ''.jpeg'' \<or> endswith name ''.png'' \<or>
      endswith name ''.bmp'' \<or> endswith name ''.tif'' \<or> endswith name ''.tiff'' \<or>
      endswith name ''.webp'')"

definition stub_imwrite :: "path \<Rightarrow> string option \<Rightarrow> fs \<Rightarrow> error option \<times> fs" where
  "stub_imwrite p img f =
     (case img of
        None \<Rightarrow> (Some (CollaboratorError ''empty image''), f)
      | Some c \<Rightarrow>
          (if p = [] \<or> \<not> known_extension (last p)
           then (Some (CollaboratorError ''no writer for the extension''), f)
           else if path_isdir f (butlast p) \<and> \<not> path_isdir f p
           then (None, AList.update p (File c) f)
           else (None, f)))"

definition stub_env :: "(string option, nat) env" where
  "stub_env =
     \<lparr>choice = stub_choice, imread = stub_imread,
      transform = (\<lambda>img. Inr (map_option rev img)), imwrite = stub_imwrite\<rparr>"

text \<open>A data set with two categories, one of them already holding an output directory.\<close>

definition animals :: fs where
  "animals =
     [([''data''], Dir),
      ([''data'', ''cat''], Dir),
      ([''data'', ''cat'', ''notes.txt''], File ''n''),
      ([''data'', ''cat'', ''a.jpg''], File ''abc''),
      ([''data'', ''cat'', ''b.png''], File ''xyz''),
      ([''data'', ''dog''], Dir),
      ([''data'', ''dog'', ''augmented''], Dir),
      ([''data'', ''dog'', ''augmented'', ''old-aug.jpg''], File ''old''),
      ([''data'', ''dog'', ''d.jpg''], File ''dd''),
      ([''data'', ''dog'', ''e.jpeg''], File ''ee'')]"

text \<open>A data set with a directory nested two levels below the root.\<close>

definition nested_tree :: fs where
  "nested_tree =
     [([''data''], Dir),
      ([''data'', ''a''], Dir),
      ([''data'', ''a'', ''b''], Dir),
      ([''data'', ''a'', ''b'', ''x.jpg''], File ''xx'')]"

text \<open>A category folder holding one image among other files.\<close>

definition cluttered :: fs where
  "cluttered =
     [([''data''], Dir),
      ([''data'', ''cat''], Dir),
      ([''data'', ''cat'', ''a.jpg''], File ''abc''),
      ([''data'', ''cat'', ''notes.txt''], File ''n''),
      ([''data'', ''cat'', ''readme.md''], File ''r'')]"

text \<open>A category folder whose last entry is an image that does not decode.\<close>

definition broken :: fs where
  "broken =
     [([''data''], Dir),
      ([''data'', ''cat''], Dir),
      ([''data'', ''cat'', ''a.jpg''], File ''abc''),
      ([''data'', ''cat'', ''bad.png''], File []),
      ([''data'', ''dog''], Dir),
      ([''data'', ''dog'', ''d.jpg''], File ''dd'')]"

text \<open>A category folder in which the name \<open>augmented\<close> is taken by a file.\<close>

definition blocked :: fs where
  "blocked =
     [([''data''], Dir),
      ([''data'', ''cat''], Dir),
      ([''data'', ''cat'', ''augmented''], File ''x''),
      ([''data'', ''cat'', ''a.jpg''], File ''abc''),
      ([''data'', ''cat'', ''b.png''], File ''xyz'')]"

text \<open>
  A data set with two directories nested below the category \<open>a\<close>, and a second
  category \<open>c\<close>.
\<close>

definition nested_pair :: fs where
  "nested_pair =
     [([''data''], Dir),
      ([''data'', ''a''], Dir),
      ([''data'', ''a'', ''b''], Dir),
      ([''data'', ''a'', ''c''], Dir),
      ([''data'', ''c''], Dir),
      ([''data'', ''c'', ''c.jpg''], File ''ccc'')]"

section \<open>Properties\<close>

subsection \<open>Splitting and the output name\<close>

lemma str_split_not_Nil: "str_split s c \<noteq> []"
  by (induction s) (auto split: list.splits)

lemma str_split_unfold:
  "str_split s c =
     takeWhile (\<lambda>x. x \<noteq> c) s #
       (if c \<in> set s then str_split (tl (dropWhile (\<lambda>x. x \<noteq> c) s)) c else [])"
proof (induction s)
  case Nil
  show ?case by simp
next
  case (Cons x xs)
  show ?case
  proof (cases "x = c")
    case True
    then show ?thesis by simp
  next
    case False
    with Cons show ?thesis by (simp split: list.splits)
  qed
qed

lemma endswith_dot: "endswith s (CHR ''.'' # e) \<Longrightarrow> CHR ''.'' \<in> set s"
proof -
  assume "endswith s (CHR ''.'' # e)"
  then have "drop (length s - length (CHR ''.'' # e)) s = CHR ''.'' # e"
    by (simp add: endswith_def)
  then have "CHR ''.'' \<in> set (drop (length s - length (CHR ''.'' # e)) s)"
    by simp
  then show ?thesis by (rule in_set_dropD)
qed

lemma eligible_has_dot: "eligible s \<Longrightarrow> CHR ''.'' \<in> set s"
  unfolding eligible_def by (auto dest: endswith_dot)

lemma output_name_dot:
  "CHR ''.'' \<in> set s \<Longrightarrow>
   output_name s = Inr (before_first_dot s @ ''-aug.'' @ before_first_dot (after_first_dot s))"
proof -
  assume d: "CHR ''.'' \<in> set s"
  let ?c = "CHR ''.''"
  have 1: "str_split s ?c = before_first_dot s # str_split (after_first_dot s) ?c"
    using d str_split_unfold [of s ?c] by (simp add: before_first_dot_def after_first_dot_def)
  have 2: "str_split (after_first_dot s) ?c =
      before_first_dot (after_first_dot s) #
       (if ?c \<in> set (after_first_dot s)
        then str_split (tl (dropWhile (\<lambda>x. x \<noteq> ?c) (after_first_dot s))) ?c else [])"
    using str_split_unfold [of "after_first_dot s" ?c] by (simp add: before_first_dot_def)
  show ?thesis
    unfolding output_name_def index_def 1 by (subst 2)+ simp
qed

lemma output_name_no_dot: "CHR ''.'' \<notin> set s \<Longrightarrow> output_name s = Inl IndexError"
  using str_split_unfold [of s "CHR ''.''"] by (simp add: output_name_def index_def)

lemma after_single_dot:
  "count_list s c = 1 \<Longrightarrow> c \<notin> set (tl (dropWhile (\<lambda>x. x \<noteq> c) s))"
proof (induction s)
  case Nil
  then show ?case by simp
next
  case (Cons x xs)
  then show ?case by (auto simp: count_list_0_iff split: if_splits)
qed

text \<open>
  C4, as amended. For every name that passes the extension test, the output name is the
  text before the first dot, then \<open>-aug.\<close>, then the text between the first dot and the
  second one (up to the end when there is no second dot). It is the name the
  specification describes exactly when the source name has a single dot.
\<close>

theorem output_name_first_two_segments:
  assumes "eligible filename"
  shows "output_name filename =
           Inr (before_first_dot filename @ ''-aug.'' @
                before_first_dot (after_first_dot filename)) \<and>
         (count_list filename (CHR ''.'') = 1 \<longrightarrow>
           output_name filename = Inr (claimed_output_name filename))"
proof (intro conjI impI)
  show a: "output_name filename =
           Inr (before_first_dot filename @ ''-aug.'' @
                before_first_dot (after_first_dot filename))"
    using assms by (simp add: output_name_dot eligible_has_dot)
  assume "count_list filename (CHR ''.'') = 1"
  then have "CHR ''.'' \<notin> set (after_first_dot filename)"
    unfolding after_first_dot_def by (rule after_single_dot)
  then have "before_first_dot (after_first_dot filename) = after_first_dot filename"
    unfolding before_first_dot_def by (auto simp: takeWhile_eq_all_conv)
  with a show "output_name filename = Inr (claimed_output_name filename)"
    by (simp add: claimed_output_name_def)
qed

theorem output_name_first_two_segments_witness:
  "eligible ''dog.jpg'' \<and> count_list ''dog.jpg'' (CHR ''.'') = 1 \<and>
   output_name ''dog.jpg'' = Inr ''dog-aug.jpg'' \<and>
   claimed_output_name ''dog.jpg'' = ''dog-aug.jpg''"
proof -
  have e: "eligible ''dog.jpg''"
    by (simp add: eligible_def endswith_def)
  have c: "count_list ''dog.jpg'' (CHR ''.'') = 1"
    by simp
  have n: "claimed_output_name ''dog.jpg'' = ''dog-aug.jpg''"
    by (simp add: claimed_output_name_def before_first_dot_def after_first_dot_def)
  from output_name_first_two_segments [OF e] c n e show ?thesis
    by (simp add: before_first_dot_def after_first_dot_def)
qed

text \<open>
  C4, as the specification states it, fails for a name with two dots: everything after
  the first dot would give \<open>img-aug.photo.png\<close>, and the code gives \<open>img-aug.photo\<close>.
\<close>

theorem output_name_claimed_counterexample:
  "eligible ''img.photo.png'' \<and>
   claimed_output_name ''img.photo.png'' = ''img-aug.photo.png'' \<and>
   output_name ''img.photo.png'' \<noteq> Inr (claimed_output_name ''img.photo.png'')"
  by (simp add: output_name_def index_def eligible_def endswith_def claimed_output_name_def
      before_first_dot_def after_first_dot_def)

text \<open>
  C5. The source name \<open>cat.jpg\<close> gives \<open>cat-aug.jpg\<close>, and the source name
  \<open>img.photo.png\<close> gives \<open>img-aug.photo\<close>: only the segment between the first and the
  second dot is kept.
\<close>

theorem output_name_examples:
  "output_name ''cat.jpg'' = Inr ''cat-aug.jpg'' \<and>
   output_name ''img.photo.png'' = Inr ''img-aug.photo''"
  by (simp add: output_name_def index_def)

subsection \<open>Every recorded event has the expected shape\<close>

lemma log_record_event [simp]: "log (record_event e s) = log s @ [e]"
  by (simp add: record_event_def)

lemma fs_of_record_event [simp]: "fs_of (record_event e s) = fs_of s"
  by (simp add: record_event_def)

lemma gen_record_event [simp]: "gen (record_event e s) = gen s"
  by (simp add: record_event_def)

lemma ensure_dir_log:
  "log (snd (ensure_dir p s)) = log s \<or> log (snd (ensure_dir p s)) = log s @ [MadeDir p]"
  by (simp add: ensure_dir_def Let_def split: sum.splits)

lemma transform_and_write_log:
  "log (snd (transform_and_write env p img s)) = log s \<or>
   log (snd (transform_and_write env p img s)) = log s @ [Wrote p]"
  by (simp add: transform_and_write_def Let_def split: sum.splits prod.splits)

lemma process_file_log:
  "\<exists>evs. log (snd (process_file env nested filename s)) = log s @ evs \<and>
     (evs \<noteq> [] \<longrightarrow> eligible filename) \<and>
     set evs \<subseteq> {Loaded (nested @ [filename]), MadeDir (nested @ [''augmented''])} \<union>
               {Wrote (nested @ [''augmented'', n]) | n. True}"
proof (cases "eligible filename")
  case False
  then show ?thesis by (simp add: process_file_def)
next
  case True
  define s1 where "s1 = record_event (Loaded (nested @ [filename])) s"
  have l1: "log s1 = log s @ [Loaded (nested @ [filename])]"
    by (simp add: s1_def)
  show ?thesis
  proof (cases "imread env (fs_of s1) (nested @ [filename])")
    case (Inl e)
    then have "process_file env nested filename s = (Some e, s1)"
      using True by (simp add: process_file_def Let_def s1_def)
    with l1 True show ?thesis by simp
  next
    case (Inr img)
    obtain r2 s2 where e2: "ensure_dir (nested @ [''augmented'']) s1 = (r2, s2)"
      by (cases "ensure_dir (nested @ [''augmented'']) s1")
    have l2: "log s2 = log s1 \<or> log s2 = log s1 @ [MadeDir (nested @ [''augmented''])]"
      using ensure_dir_log [of "nested @ [''augmented'']" s1] e2 by simp
    show ?thesis
    proof (cases r2)
      case (Some e)
      then have "process_file env nested filename s = (Some e, s2)"
        using True Inr e2 by (simp add: process_file_def Let_def s1_def)
      with l1 l2 True show ?thesis by auto
    next
      case None
      obtain name where n: "output_name filename = Inr name"
        using True by (simp add: output_name_dot eligible_has_dot)
      have p: "process_file env nested filename s =
          transform_and_write env (nested @ [''augmented'', name]) img s2"
        using True Inr e2 None n by (simp add: process_file_def Let_def s1_def)
      have l3: "log (snd (process_file env nested filename s)) = log s2 \<or>
          log (snd (process_file env nested filename s)) =
            log s2 @ [Wrote (nested @ [''augmented'', name])]"
        unfolding p by (rule transform_and_write_log)
      with l1 l2 True show ?thesis by auto
    qed
  qed
qed

lemma process_file_log_ok:
  assumes "dirname \<noteq> ''augmented''" and "\<forall>e\<in>set (log s). event_ok fp e"
  shows "\<forall>e\<in>set (log (snd (process_file env (fp @ [dirname]) filename s))). event_ok fp e"
proof -
  obtain evs where
    l: "log (snd (process_file env (fp @ [dirname]) filename s)) = log s @ evs" and
    e: "evs \<noteq> [] \<longrightarrow> eligible filename" and
    s: "set evs \<subseteq> {Loaded ((fp @ [dirname]) @ [filename]),
                    MadeDir ((fp @ [dirname]) @ [''augmented''])} \<union>
               {Wrote ((fp @ [dirname]) @ [''augmented'', n]) | n. True}"
    using process_file_log [of env "fp @ [dirname]" filename s] by blast
  have "\<forall>x\<in>set evs. event_ok fp x"
  proof
    fix x assume x: "x \<in> set evs"
    then have "evs \<noteq> []" by auto
    with e have "eligible filename" by simp
    with x s assms(1) show "event_ok fp x"
      by (auto simp: butlast_append)
  qed
  with assms(2) l show ?thesis by auto
qed

lemma process_files_log_ok:
  assumes "dirname \<noteq> ''augmented''"
  shows "\<forall>e\<in>set (log s). event_ok fp e \<Longrightarrow>
    \<forall>e\<in>set (log (snd (process_files env (fp @ [dirname]) xs s))). event_ok fp e"
proof (induction xs arbitrary: s)
  case Nil
  then show ?case by simp
next
  case (Cons x xs)
  obtain r s' where p: "process_file env (fp @ [dirname]) x s = (r, s')"
    by (cases "process_file env (fp @ [dirname]) x s")
  have ok: "\<forall>e\<in>set (log s'). event_ok fp e"
    using process_file_log_ok [OF assms Cons.prems, of env x] p by simp
  show ?case
  proof (cases r)
    case None
    with p Cons.IH [OF ok] show ?thesis by simp
  next
    case (Some e)
    with p ok show ?thesis by simp
  qed
qed

lemma sample_log: "sample env files quantity s = Inr (picked, s') \<Longrightarrow>
    log s' = log s \<and> fs_of s' = fs_of s"
  by (auto simp: sample_def Let_def split: if_splits prod.splits)

lemma process_dirname_log_ok:
  assumes "\<forall>e\<in>set (log s). event_ok fp e"
  shows "\<forall>e\<in>set (log (snd (process_dirname env fp quantity dirname s))). event_ok fp e"
proof (cases "dirname = ''augmented''")
  case True
  with assms show ?thesis by (simp add: process_dirname_def)
next
  case False
  define s1 where "s1 = record_event (Listed (fp @ [dirname])) s"
  have ok1: "\<forall>e\<in>set (log s1). event_ok fp e"
    using assms False by (simp add: s1_def)
  show ?thesis
  proof (cases "listdir (fs_of s1) (fp @ [dirname])")
    case (Inl e)
    then have "process_dirname env fp quantity dirname s = (Some e, s1)"
      using False by (simp add: process_dirname_def Let_def s1_def)
    with ok1 show ?thesis by simp
  next
    case (Inr files)
    show ?thesis
    proof (cases "sample env files quantity s1")
      case (Inl e)
      then have "process_dirname env fp quantity dirname s = (Some e, s1)"
        using False Inr by (simp add: process_dirname_def Let_def s1_def)
      with ok1 show ?thesis by simp
    next
      case (Inr b)
      obtain picked s2 where b: "b = (picked, s2)" by (cases b)
      have ok2: "\<forall>e\<in>set (log s2). event_ok fp e"
        using sample_log [of env files quantity s1 picked s2] Inr b ok1 by simp
      have "process_dirname env fp quantity dirname s =
          process_files env (fp @ [dirname]) picked s2"
        using False \<open>listdir (fs_of s1) (fp @ [dirname]) = Inr files\<close> Inr b
        by (simp add: process_dirname_def Let_def s1_def)
      with process_files_log_ok [OF False ok2, of env picked] show ?thesis by simp
    qed
  qed
qed

lemma process_dirnames_log_ok:
  "\<forall>e\<in>set (log s). event_ok fp e \<Longrightarrow>
    \<forall>e\<in>set (log (snd (process_dirnames env fp quantity ds s))). event_ok fp e"
proof (induction ds arbitrary: s)
  case Nil
  then show ?case by simp
next
  case (Cons d ds)
  obtain r s' where p: "process_dirname env fp quantity d s = (r, s')"
    by (cases "process_dirname env fp quantity d s")
  have ok: "\<forall>e\<in>set (log s'). event_ok fp e"
    using process_dirname_log_ok [OF Cons.prems, of env quantity d] p by simp
  show ?case
  proof (cases r)
    case None
    with p Cons.IH [OF ok] show ?thesis by simp
  next
    case (Some e)
    with p ok show ?thesis by simp
  qed
qed

lemma walk_loop_log_ok:
  "\<forall>e\<in>set (log s). event_ok fp e \<Longrightarrow>
    \<forall>e\<in>set (log (snd (walk_loop fuel env fp quantity pending s))). event_ok fp e"
proof (induction fuel env fp quantity pending s rule: walk_loop.induct)
  case (1 fuel env fp quantity s)
  then show ?case by simp
next
  case (2 env fp quantity dirpath pending s)
  then show ?case by simp
next
  case (3 fuel env fp quantity dirpath pending s)
  show ?case
  proof (cases "scan (fs_of s) dirpath")
    case None
    with 3 show ?thesis by simp
  next
    case (Some a)
    obtain dirnames filenames where a: "a = (dirnames, filenames)" by (cases a)
    obtain r s' where p: "process_dirnames env fp quantity dirnames s = (r, s')"
      by (cases "process_dirnames env fp quantity dirnames s")
    have ok: "\<forall>e\<in>set (log s'). event_ok fp e"
      using process_dirnames_log_ok [OF "3.prems", of env quantity dirnames] p by simp
    show ?thesis
    proof (cases r)
      case None
      from "3.IH"(2) [OF Some a [symmetric] p [symmetric] None ok]
      show ?thesis using Some a p None by simp
    next
      case (Some e)
      with \<open>scan (fs_of s) dirpath = Some a\<close> a p ok show ?thesis by simp
    qed
  qed
qed

lemma augment_log_ok:
  "\<forall>e\<in>set (log (snd (augment env fuel fp quantity f g))). event_ok fp e"
  unfolding augment_def by (rule walk_loop_log_ok) simp

subsection \<open>Concrete runs\<close>

lemma animals_run:
  "augment stub_env 20 [''data''] 5 animals 0 =
     (Finished,
      \<lparr>fs_of =
         [([''data''], Dir),
          ([''data'', ''cat''], Dir),
          ([''data'', ''cat'', ''notes.txt''], File ''n''),
          ([''data'', ''cat'', ''a.jpg''], File ''abc''),
          ([''data'', ''cat'', ''b.png''], File ''xyz''),
          ([''data'', ''dog''], Dir),
          ([''data'', ''dog'', ''augmented''], Dir),
          ([''data'', ''dog'', ''augmented'', ''old-aug.jpg''], File ''old''),
          ([''data'', ''dog'', ''d.jpg''], File ''dd''),
          ([''data'', ''dog'', ''e.jpeg''], File ''ee''),
          ([''data'', ''cat'', ''augmented''], Dir),
          ([''data'', ''cat'', ''augmented'', ''b-aug.png''], File ''zyx''),
          ([''data'', ''cat'', ''augmented'', ''a-aug.jpg''], File ''cba''),
          ([''data'', ''dog'', ''augmented'', ''d-aug.jpg''], File ''dd'')],
       gen = 2,
       log =
         [Listed [''data'', ''cat''],
          Loaded [''data'', ''cat'', ''b.png''],
          MadeDir [''data'', ''cat'', ''augmented''],
          Wrote [''data'', ''cat'', ''augmented'', ''b-aug.png''],
          Loaded [''data'', ''cat'', ''a.jpg''],
          Wrote [''data'', ''cat'', ''augmented'', ''a-aug.jpg''],
          Listed [''data'', ''dog''],
          Loaded [''data'', ''dog'', ''d.jpg''],
          Wrote [''data'', ''dog'', ''augmented'', ''d-aug.jpg'']]\<rparr>)"
  by code_simp

subsection \<open>The guard on the name augmented\<close>

text \<open>
  C6. In every run, a directory whose name is \<open>augmented\<close> is never listed for sampling,
  and no file directly inside a directory of that name is ever read as a source image,
  whatever the directory holds.
\<close>

theorem augmented_never_a_source:
  "(\<forall>p. Listed p \<in> set (log (snd (augment env fuel folder_path quantity f g))) \<longrightarrow>
        last p \<noteq> ''augmented'') \<and>
   (\<forall>p. Loaded p \<in> set (log (snd (augment env fuel folder_path quantity f g))) \<longrightarrow>
        last (butlast p) \<noteq> ''augmented'')"
proof (intro conjI allI impI)
  fix p
  assume "Listed p \<in> set (log (snd (augment env fuel folder_path quantity f g)))"
  with augment_log_ok [of env fuel folder_path quantity f g]
  have "event_ok folder_path (Listed p)" by blast
  then show "last p \<noteq> ''augmented''" by simp
next
  fix p
  assume "Loaded p \<in> set (log (snd (augment env fuel folder_path quantity f g)))"
  with augment_log_ok [of env fuel folder_path quantity f g]
  have "event_ok folder_path (Loaded p)" by blast
  then show "last (butlast p) \<noteq> ''augmented''" by simp
qed

theorem augmented_never_a_source_witness:
  "lookup animals [''data'', ''dog'', ''augmented'', ''old-aug.jpg''] = Some (File ''old'') \<and>
   Listed [''data'', ''dog''] \<in> set (log (snd (augment stub_env 20 [''data''] 5 animals 0))) \<and>
   last [''data'', ''dog''] \<noteq> ''augmented'' \<and>
   Loaded [''data'', ''dog'', ''d.jpg'']
     \<in> set (log (snd (augment stub_env 20 [''data''] 5 animals 0))) \<and>
   last (butlast [''data'', ''dog'', ''d.jpg'']) \<noteq> ''augmented'' \<and>
   Listed [''data'', ''dog'', ''augmented'']
     \<notin> set (log (snd (augment stub_env 20 [''data''] 5 animals 0))) \<and>
   Loaded [''data'', ''dog'', ''augmented'', ''old-aug.jpg'']
     \<notin> set (log (snd (augment stub_env 20 [''data''] 5 animals 0)))"
proof -
  have l: "lookup animals [''data'', ''dog'', ''augmented'', ''old-aug.jpg''] = Some (File ''old'')"
    by (simp add: lookup_def animals_def)
  have a: "Listed [''data'', ''dog''] \<in> set (log (snd (augment stub_env 20 [''data''] 5 animals 0)))"
    and b: "Loaded [''data'', ''dog'', ''d.jpg'']
      \<in> set (log (snd (augment stub_env 20 [''data''] 5 animals 0)))"
    by (simp_all add: animals_run)
  from augmented_never_a_source [of stub_env 20 "[''data'']" 5 animals 0]
  have c: "Listed [''data'', ''dog'', ''augmented'']
       \<notin> set (log (snd (augment stub_env 20 [''data''] 5 animals 0)))"
    and d: "Loaded [''data'', ''dog'', ''augmented'', ''old-aug.jpg'']
       \<notin> set (log (snd (augment stub_env 20 [''data''] 5 animals 0)))"
    and e: "last [''data'', ''dog''] \<noteq> ''augmented''"
    and f: "last (butlast [''data'', ''dog'', ''d.jpg'']) \<noteq> ''augmented''"
    using a b by fastforce+
  from l a b c d e f show ?thesis by blast
qed

subsection \<open>The extension filter\<close>

lemma process_file_ineligible:
  "\<not> eligible filename \<Longrightarrow> process_file env nested filename s = (None, s)"
  by (simp add: process_file_def)

lemma process_files_filter:
  "process_files env nested xs s = process_files env nested (filter eligible xs) s"
proof (induction xs arbitrary: s)
  case Nil
  show ?case by simp
next
  case (Cons x xs)
  show ?case
  proof (cases "eligible x")
    case True
    with Cons show ?thesis by (simp split: prod.splits option.splits)
  next
    case False
    with Cons show ?thesis by (simp add: process_file_ineligible)
  qed
qed

text \<open>
  C8. In every run, every image that is opened has a name ending in \<open>.jpg\<close> or \<open>.png\<close>.
  A sampled entry with any other name leaves the state as it is (nothing is opened, no
  directory is made, nothing is written), so a pass over sampled names is the pass over
  the eligible ones among them.
\<close>

theorem ineligible_never_processed:
  "(\<forall>p. Loaded p \<in> set (log (snd (augment env fuel folder_path quantity f g))) \<longrightarrow>
        eligible (last p)) \<and>
   (\<not> eligible filename \<longrightarrow> process_file env nested filename s = (None, s)) \<and>
   process_files env nested picked s = process_files env nested (filter eligible picked) s"
proof (intro conjI allI impI)
  fix p
  assume "Loaded p \<in> set (log (snd (augment env fuel folder_path quantity f g)))"
  with augment_log_ok [of env fuel folder_path quantity f g]
  have "event_ok folder_path (Loaded p)" by blast
  then show "eligible (last p)" by simp
next
  assume "\<not> eligible filename"
  then show "process_file env nested filename s = (None, s)"
    by (rule process_file_ineligible)
next
  show "process_files env nested picked s = process_files env nested (filter eligible picked) s"
    by (rule process_files_filter)
qed

theorem ineligible_never_processed_witness:
  "\<not> eligible ''e.jpeg'' \<and> \<not> eligible ''augmented'' \<and> \<not> eligible ''photo.JPG'' \<and>
   process_file stub_env [''data'', ''dog''] ''e.jpeg'' \<lparr>fs_of = animals, gen = 0, log = []\<rparr> =
     (None, \<lparr>fs_of = animals, gen = 0, log = []\<rparr>) \<and>
   Loaded [''data'', ''dog'', ''e.jpeg'']
     \<notin> set (log (snd (augment stub_env 20 [''data''] 5 animals 0))) \<and>
   process_files stub_env [''data'', ''dog''] [''e.jpeg'', ''d.jpg'', ''augmented'']
       \<lparr>fs_of = animals, gen = 0, log = []\<rparr> =
     process_files stub_env [''data'', ''dog''] [''d.jpg''] \<lparr>fs_of = animals, gen = 0, log = []\<rparr>"
proof -
  have e: "\<not> eligible ''e.jpeg''" "\<not> eligible ''augmented''" "\<not> eligible ''photo.JPG''"
    "filter eligible [''e.jpeg'', ''d.jpg'', ''augmented''] = [''d.jpg'']"
    by (simp_all add: eligible_def endswith_def)
  have l: "last [''data'', ''dog'', ''e.jpeg''] = ''e.jpeg''"
    by simp
  from ineligible_never_processed
    [of stub_env 20 "[''data'']" 5 animals 0 "''e.jpeg''" "[''data'', ''dog'']"
        "\<lparr>fs_of = animals, gen = 0, log = []\<rparr>" "[''e.jpeg'', ''d.jpg'', ''augmented'']"]
  show ?thesis using e l by (metis (no_types, lifting))
qed

subsection \<open>What a run changes in the file system\<close>

lemma pass_frame_refl: "pass_frame nested f f"
  by (simp add: pass_frame_def)

lemma pass_frame_trans:
  "pass_frame nested f f' \<Longrightarrow> pass_frame nested f' f'' \<Longrightarrow> pass_frame nested f f''"
  unfolding pass_frame_def
  apply (intro allI)
  subgoal for q
    apply (drule spec [of _ q])+
    apply auto
    done
  done

lemma outputs_only_refl: "outputs_only f f"
  by (simp add: outputs_only_def)

lemma outputs_only_trans:
  "outputs_only f f' \<Longrightarrow> outputs_only f' f'' \<Longrightarrow> outputs_only f f''"
  unfolding outputs_only_def
  apply (intro allI)
  subgoal for q
    apply (drule spec [of _ q])+
    apply auto
    done
  done

lemma pass_frame_outputs_only: "pass_frame nested f f' \<Longrightarrow> outputs_only f f'"
  unfolding pass_frame_def outputs_only_def
  apply (intro allI)
  subgoal for q
    apply (drule spec [of _ q])
    apply (auto simp: butlast_append)
    done
  done

lemma pass_frame_isdir:
  "pass_frame nested f f' \<Longrightarrow> path_isdir f nested \<Longrightarrow> path_isdir f' nested"
  unfolding pass_frame_def path_isdir_def
  by (drule spec [of _ nested]) auto

lemma lookup_mkdir:
  assumes "mkdir p f = Inr f'"
  shows "lookup f p = None" and "lookup f' q = (if q = p then Some Dir else lookup f q)"
proof -
  from assms have n: "lookup f p = None" and f': "f' = f @ [(p, Dir)]"
    by (auto simp: mkdir_def path_exists_def split: if_splits)
  show "lookup f p = None" by (rule n)
  show "lookup f' q = (if q = p then Some Dir else lookup f q)"
    using n by (auto simp: f' lookup_def map_add_def split: option.splits)
qed

lemma makedirs_parent_exists:
  "path_exists f (butlast p) \<Longrightarrow> makedirs p f = mkdir p f"
  by (subst makedirs.simps) simp

lemma ensure_dir_frame:
  assumes "path_isdir (fs_of s) nested"
  shows "pass_frame nested (fs_of s) (fs_of (snd (ensure_dir (nested @ [''augmented'']) s)))"
proof (cases "path_exists (fs_of s) (nested @ [''augmented''])")
  case True
  then show ?thesis by (simp add: ensure_dir_def pass_frame_refl)
next
  case False
  have pe: "path_exists (fs_of s) (butlast (nested @ [''augmented'']))"
    using assms by (auto simp: path_exists_def path_isdir_def)
  have m: "makedirs (nested @ [''augmented'']) (fs_of s) = mkdir (nested @ [''augmented'']) (fs_of s)"
    using pe by (rule makedirs_parent_exists)
  show ?thesis
  proof (cases "mkdir (nested @ [''augmented'']) (fs_of s)")
    case (Inl e)
    with False m show ?thesis by (simp add: ensure_dir_def Let_def pass_frame_refl)
  next
    case (Inr f')
    from lookup_mkdir [OF Inr] have "pass_frame nested (fs_of s) f'"
      by (simp add: pass_frame_def)
    with False m Inr show ?thesis by (simp add: ensure_dir_def Let_def)
  qed
qed

lemma transform_and_write_frame:
  assumes "imwrite_local (imwrite env)"
  shows "pass_frame nested (fs_of s)
           (fs_of (snd (transform_and_write env (nested @ [''augmented'', n]) img s)))"
proof (cases "transform env img")
  case (Inl e)
  then show ?thesis by (simp add: transform_and_write_def pass_frame_refl)
next
  case (Inr a)
  have "fs_of (snd (transform_and_write env (nested @ [''augmented'', n]) img s)) =
      snd (imwrite env (nested @ [''augmented'', n]) a (fs_of s))"
    using Inr by (simp add: transform_and_write_def Let_def split: prod.splits)
  moreover have "\<forall>q. q \<noteq> nested @ [''augmented'', n] \<longrightarrow>
      lookup (snd (imwrite env (nested @ [''augmented'', n]) a (fs_of s))) q = lookup (fs_of s) q"
    using assms by (simp add: imwrite_local_def)
  ultimately show ?thesis unfolding pass_frame_def by metis
qed

lemma process_file_frame:
  assumes w: "imwrite_local (imwrite env)" and d: "path_isdir (fs_of s) nested"
  shows "pass_frame nested (fs_of s) (fs_of (snd (process_file env nested filename s)))"
proof (cases "eligible filename")
  case False
  then show ?thesis by (simp add: process_file_def pass_frame_refl)
next
  case True
  define s1 where "s1 = record_event (Loaded (nested @ [filename])) s"
  have f1: "fs_of s1 = fs_of s" by (simp add: s1_def)
  show ?thesis
  proof (cases "imread env (fs_of s1) (nested @ [filename])")
    case (Inl e)
    then have "process_file env nested filename s = (Some e, s1)"
      using True by (simp add: process_file_def Let_def s1_def)
    with f1 show ?thesis by (simp add: pass_frame_refl)
  next
    case (Inr img)
    obtain r2 s2 where e2: "ensure_dir (nested @ [''augmented'']) s1 = (r2, s2)"
      by (cases "ensure_dir (nested @ [''augmented'']) s1")
    have p2: "pass_frame nested (fs_of s) (fs_of s2)"
      using ensure_dir_frame [of s1 nested] d f1 e2 by simp
    show ?thesis
    proof (cases r2)
      case (Some e)
      then have "process_file env nested filename s = (Some e, s2)"
        using True Inr e2 by (simp add: process_file_def Let_def s1_def)
      with p2 show ?thesis by simp
    next
      case None
      obtain name where n: "output_name filename = Inr name"
        using True by (simp add: output_name_dot eligible_has_dot)
      have p: "process_file env nested filename s =
          transform_and_write env (nested @ [''augmented'', name]) img s2"
        using True Inr e2 None n by (simp add: process_file_def Let_def s1_def)
      have "pass_frame nested (fs_of s2) (fs_of (snd (process_file env nested filename s)))"
        unfolding p using w by (rule transform_and_write_frame)
      with p2 show ?thesis by (rule pass_frame_trans)
    qed
  qed
qed

lemma process_files_frame:
  assumes w: "imwrite_local (imwrite env)"
  shows "path_isdir (fs_of s) nested \<Longrightarrow>
    pass_frame nested (fs_of s) (fs_of (snd (process_files env nested xs s)))"
proof (induction xs arbitrary: s)
  case Nil
  show ?case by (simp add: pass_frame_refl)
next
  case (Cons x xs)
  obtain r s' where p: "process_file env nested x s = (r, s')"
    by (cases "process_file env nested x s")
  have fr: "pass_frame nested (fs_of s) (fs_of s')"
    using process_file_frame [OF w Cons.prems, of x] p by simp
  show ?case
  proof (cases r)
    case (Some e)
    with p fr show ?thesis by simp
  next
    case None
    have "path_isdir (fs_of s') nested"
      using fr Cons.prems by (rule pass_frame_isdir)
    then have "pass_frame nested (fs_of s') (fs_of (snd (process_files env nested xs s')))"
      by (rule Cons.IH)
    with fr have "pass_frame nested (fs_of s) (fs_of (snd (process_files env nested xs s')))"
      by (rule pass_frame_trans)
    with p None show ?thesis by simp
  qed
qed

lemma process_dirname_frame:
  assumes w: "imwrite_local (imwrite env)"
  shows "outputs_only (fs_of s) (fs_of (snd (process_dirname env fp quantity dirname s)))"
proof (cases "dirname = ''augmented''")
  case True
  then show ?thesis by (simp add: process_dirname_def outputs_only_refl)
next
  case False
  define s1 where "s1 = record_event (Listed (fp @ [dirname])) s"
  have f1: "fs_of s1 = fs_of s" by (simp add: s1_def)
  show ?thesis
  proof (cases "listdir (fs_of s1) (fp @ [dirname])")
    case (Inl e)
    then have "process_dirname env fp quantity dirname s = (Some e, s1)"
      using False by (simp add: process_dirname_def Let_def s1_def)
    with f1 show ?thesis by (simp add: outputs_only_refl)
  next
    case (Inr files)
    then have d: "path_isdir (fs_of s1) (fp @ [dirname])"
      by (simp add: listdir_def split: if_splits)
    show ?thesis
    proof (cases "sample env files quantity s1")
      case (Inl e)
      then have "process_dirname env fp quantity dirname s = (Some e, s1)"
        using False Inr by (simp add: process_dirname_def Let_def s1_def)
      with f1 show ?thesis by (simp add: outputs_only_refl)
    next
      case (Inr b)
      obtain picked s2 where b: "b = (picked, s2)" by (cases b)
      have f2: "fs_of s2 = fs_of s"
        using sample_log [of env files quantity s1 picked s2] Inr b f1 by simp
      have eq: "process_dirname env fp quantity dirname s =
          process_files env (fp @ [dirname]) picked s2"
        using False \<open>listdir (fs_of s1) (fp @ [dirname]) = Inr files\<close> Inr b
        by (simp add: process_dirname_def Let_def s1_def)
      have "path_isdir (fs_of s2) (fp @ [dirname])"
        using d f1 f2 by simp
      then have "pass_frame (fp @ [dirname]) (fs_of s2)
          (fs_of (snd (process_files env (fp @ [dirname]) picked s2)))"
        by (rule process_files_frame [OF w])
      then show ?thesis
        unfolding eq f2 [symmetric] by (rule pass_frame_outputs_only)
    qed
  qed
qed

lemma process_dirnames_frame:
  assumes w: "imwrite_local (imwrite env)"
  shows "outputs_only (fs_of s) (fs_of (snd (process_dirnames env fp quantity ds s)))"
proof (induction ds arbitrary: s)
  case Nil
  show ?case by (simp add: outputs_only_refl)
next
  case (Cons d ds)
  obtain r s' where p: "process_dirname env fp quantity d s = (r, s')"
    by (cases "process_dirname env fp quantity d s")
  have fr: "outputs_only (fs_of s) (fs_of s')"
    using process_dirname_frame [OF w, of s fp quantity d] p by simp
  show ?case
  proof (cases r)
    case (Some e)
    with p fr show ?thesis by simp
  next
    case None
    from fr Cons.IH [of s']
    have "outputs_only (fs_of s) (fs_of (snd (process_dirnames env fp quantity ds s')))"
      by (rule outputs_only_trans)
    with p None show ?thesis by simp
  qed
qed

lemma walk_loop_frame:
  assumes w: "imwrite_local (imwrite env)"
  shows "outputs_only (fs_of s) (fs_of (snd (walk_loop fuel env fp quantity pending s)))"
  using w
proof (induction fuel env fp quantity pending s rule: walk_loop.induct)
  case (1 fuel env fp quantity s)
  show ?case by (simp add: outputs_only_refl)
next
  case (2 env fp quantity dirpath pending s)
  show ?case by (simp add: outputs_only_refl)
next
  case (3 fuel env fp quantity dirpath pending s)
  show ?case
  proof (cases "scan (fs_of s) dirpath")
    case None
    with 3 show ?thesis by simp
  next
    case (Some a)
    obtain dirnames filenames where a: "a = (dirnames, filenames)" by (cases a)
    obtain r s' where p: "process_dirnames env fp quantity dirnames s = (r, s')"
      by (cases "process_dirnames env fp quantity dirnames s")
    have fr: "outputs_only (fs_of s) (fs_of s')"
      using process_dirnames_frame [OF "3.prems", of s fp quantity dirnames] p by simp
    show ?thesis
    proof (cases r)
      case None
      from fr "3.IH"(2) [OF Some a [symmetric] p [symmetric] None "3.prems"]
      have "outputs_only (fs_of s)
         (fs_of (snd (walk_loop fuel env fp quantity
             (map (\<lambda>dirname. dirpath @ [dirname]) dirnames @ pending) s')))"
        by (rule outputs_only_trans)
      then show ?thesis using Some a p None by simp
    next
      case (Some e)
      with \<open>scan (fs_of s) dirpath = Some a\<close> a p fr show ?thesis by simp
    qed
  qed
qed

lemma augment_frame:
  "imwrite_local (imwrite env) \<Longrightarrow>
   outputs_only f (fs_of (snd (augment env fuel fp quantity f g)))"
  unfolding augment_def using walk_loop_frame [of env "\<lparr>fs_of = f, gen = g, log = []\<rparr>"]
  by simp

subsection \<open>The stub collaborators meet the assumptions\<close>

lemma valid_stub_choice: "valid_choice stub_choice"
proof -
  have "mset (take k (rev xs)) \<subseteq># mset xs" for k and xs :: "string list"
  proof -
    have "mset (take k (rev xs)) \<subseteq># mset (take k (rev xs)) + mset (drop k (rev xs))"
      by simp
    also have "\<dots> = mset (rev xs)"
      by (simp only: union_code append_take_drop_id)
    finally show ?thesis by simp
  qed
  then show ?thesis by (simp add: valid_choice_def stub_choice_def)
qed

lemma stub_imwrite_local: "imwrite_local stub_imwrite"
  by (simp add: imwrite_local_def stub_imwrite_def lookup_def update_conv' split: option.splits)

lemma stub_env_fields [simp]:
  "choice stub_env = stub_choice" "imwrite stub_env = stub_imwrite"
  "imread stub_env = stub_imread"
  by (simp_all add: stub_env_def)

lemma not_eligible_augmented: "\<not> eligible ''augmented''"
  by (simp add: eligible_def endswith_def)

subsection \<open>Writes stay under augmented\<close>

text \<open>
  C10. With a writer that touches only the path it is given: every write of a run goes
  to a path whose parent directory is named \<open>augmented\<close>, and every directory made is
  named \<open>augmented\<close>. After the run, a path holds what it held before unless it is such a
  new directory or lies directly inside a directory named \<open>augmented\<close>; in particular
  every image that was read as a source is unchanged.
\<close>

theorem writes_only_under_augmented:
  assumes "imwrite_local (imwrite env)"
  shows
    "(\<forall>p. Wrote p \<in> set (log (snd (augment env fuel folder_path quantity f g))) \<longrightarrow>
        p \<noteq> [] \<and> butlast p \<noteq> [] \<and> last (butlast p) = ''augmented'') \<and>
     (\<forall>p. MadeDir p \<in> set (log (snd (augment env fuel folder_path quantity f g))) \<longrightarrow>
        last p = ''augmented'') \<and>
     (\<forall>q. lookup (fs_of (snd (augment env fuel folder_path quantity f g))) q = lookup f q \<or>
        (last q = ''augmented'' \<and> lookup f q = None \<and>
         lookup (fs_of (snd (augment env fuel folder_path quantity f g))) q = Some Dir) \<or>
        (q \<noteq> [] \<and> butlast q \<noteq> [] \<and> last (butlast q) = ''augmented'')) \<and>
     (\<forall>p. Loaded p \<in> set (log (snd (augment env fuel folder_path quantity f g))) \<longrightarrow>
        lookup (fs_of (snd (augment env fuel folder_path quantity f g))) p = lookup f p)"
proof -
  let ?s = "snd (augment env fuel folder_path quantity f g)"
  have ok: "\<forall>e\<in>set (log ?s). event_ok folder_path e"
    by (rule augment_log_ok)
  have fr: "outputs_only f (fs_of ?s)"
    using assms by (rule augment_frame)
  have a: "\<forall>p. Wrote p \<in> set (log ?s) \<longrightarrow>
        p \<noteq> [] \<and> butlast p \<noteq> [] \<and> last (butlast p) = ''augmented''"
    using ok by fastforce
  have b: "\<forall>p. MadeDir p \<in> set (log ?s) \<longrightarrow> last p = ''augmented''"
    using ok by fastforce
  have c: "\<forall>q. lookup (fs_of ?s) q = lookup f q \<or>
        (last q = ''augmented'' \<and> lookup f q = None \<and> lookup (fs_of ?s) q = Some Dir) \<or>
        (q \<noteq> [] \<and> butlast q \<noteq> [] \<and> last (butlast q) = ''augmented'')"
    using fr by (simp add: outputs_only_def)
  have d: "\<forall>p. Loaded p \<in> set (log ?s) \<longrightarrow> lookup (fs_of ?s) p = lookup f p"
  proof (intro allI impI)
    fix p assume "Loaded p \<in> set (log ?s)"
    with ok have "event_ok folder_path (Loaded p)" by blast
    then have "last (butlast p) \<noteq> ''augmented''" and "eligible (last p)" by simp_all
    then have "last (butlast p) \<noteq> ''augmented''" and "last p \<noteq> ''augmented''"
      using not_eligible_augmented by auto
    with c show "lookup (fs_of ?s) p = lookup f p" by blast
  qed
  from a b c d show ?thesis by blast
qed

theorem writes_only_under_augmented_witness:
  "imwrite_local (imwrite stub_env) \<and>
   Loaded [''data'', ''cat'', ''a.jpg'']
     \<in> set (log (snd (augment stub_env 20 [''data''] 5 animals 0))) \<and>
   lookup (fs_of (snd (augment stub_env 20 [''data''] 5 animals 0))) [''data'', ''cat'', ''a.jpg'']
     = lookup animals [''data'', ''cat'', ''a.jpg''] \<and>
   Wrote [''data'', ''cat'', ''augmented'', ''a-aug.jpg'']
     \<in> set (log (snd (augment stub_env 20 [''data''] 5 animals 0))) \<and>
   last (butlast [''data'', ''cat'', ''augmented'', ''a-aug.jpg'']) = ''augmented'' \<and>
   lookup animals [''data'', ''cat'', ''augmented'', ''a-aug.jpg''] = None \<and>
   lookup (fs_of (snd (augment stub_env 20 [''data''] 5 animals 0)))
     [''data'', ''cat'', ''augmented'', ''a-aug.jpg''] = Some (File ''cba'')"
proof -
  have w: "imwrite_local (imwrite stub_env)"
    by (simp add: stub_imwrite_local)
  have a: "Loaded [''data'', ''cat'', ''a.jpg'']
     \<in> set (log (snd (augment stub_env 20 [''data''] 5 animals 0)))"
    and b: "Wrote [''data'', ''cat'', ''augmented'', ''a-aug.jpg'']
     \<in> set (log (snd (augment stub_env 20 [''data''] 5 animals 0)))"
    and c: "lookup (fs_of (snd (augment stub_env 20 [''data''] 5 animals 0)))
     [''data'', ''cat'', ''augmented'', ''a-aug.jpg''] = Some (File ''cba'')"
    by (simp_all add: animals_run lookup_def)
  have d: "lookup animals [''data'', ''cat'', ''augmented'', ''a-aug.jpg''] = None"
    by (simp add: animals_def lookup_def)
  from writes_only_under_augmented [OF w, of 20 "[''data'']" 5 animals 0] a b
  have "lookup (fs_of (snd (augment stub_env 20 [''data''] 5 animals 0)))
       [''data'', ''cat'', ''a.jpg''] = lookup animals [''data'', ''cat'', ''a.jpg'']"
    and "last (butlast [''data'', ''cat'', ''augmented'', ''a-aug.jpg'']) = ''augmented''"
    by blast+
  with w a b c d show ?thesis by blast
qed

subsection \<open>Quantity zero\<close>

lemma sample_zero:
  assumes "valid_choice (choice env)"
  shows "\<exists>s'. sample env files 0 s = Inr ([], s') \<and> fs_of s' = fs_of s \<and> log s' = log s"
proof -
  obtain picked g' where c: "choice env (gen s) files 0 = (picked, g')"
    by (cases "choice env (gen s) files 0")
  have "length (fst (choice env (gen s) files 0)) = 0"
    using assms unfolding valid_choice_def by (metis le0)
  with c have "picked = []" by simp
  with c show ?thesis by (simp add: sample_def Let_def)
qed

lemma only_listings_refl: "only_listings s s"
  by (simp add: only_listings_def)

lemma only_listings_trans:
  "only_listings s s' \<Longrightarrow> only_listings s' s'' \<Longrightarrow> only_listings s s''"
  unfolding only_listings_def by fastforce

lemma process_dirname_zero:
  assumes "valid_choice (choice env)"
  shows "only_listings s (snd (process_dirname env fp 0 dirname s))"
proof (cases "dirname = ''augmented''")
  case True
  then show ?thesis by (simp add: process_dirname_def only_listings_refl)
next
  case False
  define s1 where "s1 = record_event (Listed (fp @ [dirname])) s"
  have o1: "only_listings s s1"
    by (simp add: s1_def only_listings_def)
  show ?thesis
  proof (cases "listdir (fs_of s1) (fp @ [dirname])")
    case (Inl e)
    then have "process_dirname env fp 0 dirname s = (Some e, s1)"
      using False by (simp add: process_dirname_def Let_def s1_def)
    with o1 show ?thesis by simp
  next
    case (Inr files)
    obtain s2 where s2: "sample env files 0 s1 = Inr ([], s2)"
      "fs_of s2 = fs_of s1" "log s2 = log s1"
      using sample_zero [OF assms, of files s1] by blast
    have "process_dirname env fp 0 dirname s = (None, s2)"
      using False Inr s2(1) by (simp add: process_dirname_def Let_def s1_def)
    moreover have "only_listings s s2"
      using o1 s2(2,3) by (simp add: only_listings_def)
    ultimately show ?thesis by simp
  qed
qed

lemma process_dirnames_zero:
  assumes "valid_choice (choice env)"
  shows "only_listings s (snd (process_dirnames env fp 0 ds s))"
proof (induction ds arbitrary: s)
  case Nil
  show ?case by (simp add: only_listings_refl)
next
  case (Cons d ds)
  obtain r s' where p: "process_dirname env fp 0 d s = (r, s')"
    by (cases "process_dirname env fp 0 d s")
  have o: "only_listings s s'"
    using process_dirname_zero [OF assms, of s fp d] p by simp
  show ?case
  proof (cases r)
    case (Some e)
    with p o show ?thesis by simp
  next
    case None
    from o Cons.IH [of s'] have "only_listings s (snd (process_dirnames env fp 0 ds s'))"
      by (rule only_listings_trans)
    with p None show ?thesis by simp
  qed
qed

lemma walk_loop_zero:
  assumes "valid_choice (choice env)" and "quantity = 0"
  shows "only_listings s (snd (walk_loop fuel env fp quantity pending s))"
  using assms
proof (induction fuel env fp quantity pending s rule: walk_loop.induct)
  case (1 fuel env fp quantity s)
  show ?case by (simp add: only_listings_refl)
next
  case (2 env fp quantity dirpath pending s)
  show ?case by (simp add: only_listings_refl)
next
  case (3 fuel env fp quantity dirpath pending s)
  show ?case
  proof (cases "scan (fs_of s) dirpath")
    case None
    with 3 show ?thesis by simp
  next
    case (Some a)
    obtain dirnames filenames where a: "a = (dirnames, filenames)" by (cases a)
    obtain r s' where p: "process_dirnames env fp quantity dirnames s = (r, s')"
      by (cases "process_dirnames env fp quantity dirnames s")
    have o: "only_listings s s'"
      using process_dirnames_zero [OF "3.prems"(1), of s fp dirnames] p "3.prems"(2) by simp
    show ?thesis
    proof (cases r)
      case None
      from o "3.IH"(2) [OF Some a [symmetric] p [symmetric] None "3.prems"]
      have "only_listings s
         (snd (walk_loop fuel env fp quantity
             (map (\<lambda>dirname. dirpath @ [dirname]) dirnames @ pending) s'))"
        by (rule only_listings_trans)
      then show ?thesis using Some a p None by simp
    next
      case (Some e)
      with \<open>scan (fs_of s) dirpath = Some a\<close> a p o show ?thesis by simp
    qed
  qed
qed

text \<open>
  C7. With \<open>quantity = 0\<close> (and a generator that returns as many names as it is asked
  for), a run over any root leaves the file system exactly as it was: no file is
  written and no directory is made. The only calls recorded are listings.
\<close>

theorem quantity_zero_writes_nothing:
  assumes "valid_choice (choice env)"
  shows "fs_of (snd (augment env fuel folder_path 0 f g)) = f \<and>
         (\<forall>e\<in>set (log (snd (augment env fuel folder_path 0 f g))). \<exists>p. e = Listed p)"
  using walk_loop_zero [OF assms refl, of "\<lparr>fs_of = f, gen = g, log = []\<rparr>" fuel folder_path
      "[folder_path]"]
  by (simp add: augment_def only_listings_def)

lemma animals_run_zero:
  "augment stub_env 20 [''data''] 0 animals 0 =
     (Finished,
      \<lparr>fs_of = animals, gen = 2, log = [Listed [''data'', ''cat''], Listed [''data'', ''dog'']]\<rparr>)"
  by code_simp

theorem quantity_zero_writes_nothing_witness:
  "valid_choice (choice stub_env) \<and>
   fst (augment stub_env 20 [''data''] 0 animals 0) = Finished \<and>
   fs_of (snd (augment stub_env 20 [''data''] 0 animals 0)) = animals \<and>
   log (snd (augment stub_env 20 [''data''] 0 animals 0)) =
     [Listed [''data'', ''cat''], Listed [''data'', ''dog'']]"
proof -
  have v: "valid_choice (choice stub_env)"
    by (simp add: valid_stub_choice)
  from quantity_zero_writes_nothing [OF v, of 20 "[''data'']" animals 0]
  have "fs_of (snd (augment stub_env 20 [''data''] 0 animals 0)) = animals"
    by simp
  with v show ?thesis by (simp add: animals_run_zero)
qed

subsection \<open>Sampling, then filtering\<close>

lemma loaded_append [simp]: "loaded (xs @ ys) = loaded xs @ loaded ys"
  by (induction xs rule: loaded.induct) simp_all

lemma written_append [simp]: "written (xs @ ys) = written xs @ written ys"
  by (induction xs rule: written.induct) simp_all

lemma sub_mset_distinct:
  assumes "mset ys \<subseteq># mset xs" and "distinct xs"
  shows "distinct ys"
proof -
  have "count (mset ys) a \<le> 1" for a
  proof -
    have "count (mset ys) a \<le> count (mset xs) a"
      using assms(1) by (rule mset_subset_eq_count)
    also have "\<dots> \<le> 1"
      using assms(2) by (simp add: distinct_count_atmost_1)
    finally show ?thesis .
  qed
  then have "count (mset ys) a = (if a \<in> set ys then 1 else 0)" for a
    using count_greater_zero_iff [of "mset ys" a] le_antisym [of "count (mset ys) a" 1]
    by (cases "a \<in> set ys") (auto simp: count_eq_zero_iff)
  then show ?thesis by (simp only: distinct_count_atmost_1) simp
qed

lemma sub_mset_same_length:
  assumes "mset ys \<subseteq># mset xs" and "length ys = length xs"
  shows "mset ys = mset xs"
proof -
  from assms(1) obtain C where C: "mset xs = mset ys + C"
    by (auto simp: mset_subset_eq_exists_conv)
  then have "size (mset xs) = size (mset ys) + size C" by simp
  with assms(2) have "C = {#}" by simp
  with C show ?thesis by simp
qed

lemma ensure_dir_loaded_written:
  "loaded (log (snd (ensure_dir p s))) = loaded (log s) \<and>
   written (log (snd (ensure_dir p s))) = written (log s)"
  using ensure_dir_log [of p s] by auto

lemma transform_and_write_success:
  "transform_and_write env p img s = (None, s') \<Longrightarrow> log s' = log s @ [Wrote p]"
  by (auto simp: transform_and_write_def Let_def split: sum.splits prod.splits)

lemma process_file_success:
  assumes "eligible filename" and "process_file env nested filename s = (None, s')"
  shows "loaded (log s') = loaded (log s) @ [nested @ [filename]] \<and>
         written (log s') = written (log s) @ [output_path nested filename]"
proof -
  define s1 where "s1 = record_event (Loaded (nested @ [filename])) s"
  have l1: "log s1 = log s @ [Loaded (nested @ [filename])]"
    by (simp add: s1_def)
  show ?thesis
  proof (cases "imread env (fs_of s1) (nested @ [filename])")
    case (Inl e)
    then have "process_file env nested filename s = (Some e, s1)"
      using assms(1) by (simp add: process_file_def Let_def s1_def)
    with assms(2) show ?thesis by simp
  next
    case (Inr img)
    obtain r2 s2 where e2: "ensure_dir (nested @ [''augmented'']) s1 = (r2, s2)"
      by (cases "ensure_dir (nested @ [''augmented'']) s1")
    have l2: "loaded (log s2) = loaded (log s1)" "written (log s2) = written (log s1)"
      using ensure_dir_loaded_written [of "nested @ [''augmented'']" s1] e2 by simp_all
    show ?thesis
    proof (cases r2)
      case (Some e)
      then have "process_file env nested filename s = (Some e, s2)"
        using assms(1) Inr e2 by (simp add: process_file_def Let_def s1_def)
      with assms(2) show ?thesis by simp
    next
      case None
      obtain name where n: "output_name filename = Inr name"
        using assms(1) by (simp add: output_name_dot eligible_has_dot)
      have "process_file env nested filename s =
          transform_and_write env (nested @ [''augmented'', name]) img s2"
        using assms(1) Inr e2 None n by (simp add: process_file_def Let_def s1_def)
      with assms(2) have "log s' = log s2 @ [Wrote (nested @ [''augmented'', name])]"
        by (simp add: transform_and_write_success)
      with l1 l2 n show ?thesis by (simp add: output_path_def)
    qed
  qed
qed

lemma process_files_success:
  "process_files env nested xs s = (None, s') \<Longrightarrow>
   loaded (log s') = loaded (log s) @ map (\<lambda>n. nested @ [n]) (filter eligible xs) \<and>
   written (log s') = written (log s) @ map (output_path nested) (filter eligible xs)"
proof (induction xs arbitrary: s)
  case Nil
  then show ?case by simp
next
  case (Cons x xs)
  obtain r s1 where p: "process_file env nested x s = (r, s1)"
    by (cases "process_file env nested x s")
  with Cons.prems have r: "r = None" and rest: "process_files env nested xs s1 = (None, s')"
    by (auto split: option.splits)
  show ?case
  proof (cases "eligible x")
    case True
    from process_file_success [OF True p [unfolded r]] Cons.IH [OF rest] True
    show ?thesis by simp
  next
    case False
    with p have "s1 = s" by (simp add: process_file_ineligible)
    with Cons.IH [OF rest] False show ?thesis by simp
  qed
qed

lemma listdir_distinct: "listdir f p = Inr files \<Longrightarrow> distinct files"
  by (auto simp: listdir_def entries_def split: if_splits)

lemma process_dirname_success:
  assumes d: "dirname \<noteq> ''augmented''"
    and l: "listdir (fs_of s) (folder_path @ [dirname]) = Inr files"
    and q: "0 \<le> quantity"
    and r: "process_dirname env folder_path quantity dirname s = (None, s')"
  shows "loaded (log s') = loaded (log s) @
           map (\<lambda>n. folder_path @ [dirname] @ [n])
             (filter eligible
               (fst (choice env (gen s) files (nat (min quantity (int (length files))))))) \<and>
         written (log s') = written (log s) @
           map (output_path (folder_path @ [dirname]))
             (filter eligible
               (fst (choice env (gen s) files (nat (min quantity (int (length files)))))))"
proof -
  define s1 where "s1 = record_event (Listed (folder_path @ [dirname])) s"
  define k where "k = nat (min quantity (int (length files)))"
  obtain picked g' where c: "choice env (gen s) files k = (picked, g')"
    by (cases "choice env (gen s) files k")
  have sm: "sample env files quantity s1 = Inr (picked, s1\<lparr>gen := g'\<rparr>)"
    using q c by (simp add: sample_def Let_def s1_def k_def)
  have "process_dirname env folder_path quantity dirname s =
      process_files env (folder_path @ [dirname]) picked (s1\<lparr>gen := g'\<rparr>)"
    using d l sm by (simp add: process_dirname_def Let_def s1_def)
  with r have "process_files env (folder_path @ [dirname]) picked (s1\<lparr>gen := g'\<rparr>) = (None, s')"
    by simp
  from process_files_success [OF this] c show ?thesis
    by (simp add: s1_def k_def)
qed


text \<open>
  C3, as amended. In a pass over a category folder whose listing has at most
  \<open>quantity\<close> entries in all (eligible or not), and that raises nothing, every eligible
  image of the folder is loaded exactly once, and written once to its output path.
\<close>

theorem whole_listing_sampled:
  assumes "valid_choice (choice env)"
    and "dirname \<noteq> ''augmented''"
    and "listdir (fs_of s) (folder_path @ [dirname]) = Inr files"
    and "int (length files) \<le> quantity"
    and "process_dirname env folder_path quantity dirname s = (None, s')"
  shows "\<exists>new out.
           loaded (log s') = loaded (log s) @ new \<and> distinct new \<and>
           mset new = mset (map (\<lambda>n. folder_path @ [dirname] @ [n]) (filter eligible files)) \<and>
           written (log s') = written (log s) @ out \<and>
           mset out = mset (map (output_path (folder_path @ [dirname])) (filter eligible files))"
proof -
  let ?picked = "fst (choice env (gen s) files (length files))"
  have k: "nat (min quantity (int (length files))) = length files"
    using assms(4) by simp
  have q: "0 \<le> quantity"
    using assms(4) by simp
  from assms(1) have len: "length ?picked = length files"
    and sub: "mset ?picked \<subseteq># mset files"
    unfolding valid_choice_def by blast+
  have eq: "mset ?picked = mset files"
    using sub len by (rule sub_mset_same_length)
  have dis: "distinct ?picked"
    using sub listdir_distinct [OF assms(3)] by (rule sub_mset_distinct)
  let ?new = "map (\<lambda>n. folder_path @ [dirname] @ [n]) (filter eligible ?picked)"
  have "distinct (filter eligible ?picked)"
    using dis by simp
  then have dn: "distinct ?new"
    by (simp add: distinct_map inj_on_def)
  have "mset (filter eligible ?picked) = mset (filter eligible files)"
    using eq by (simp only: mset_filter)
  then have mn: "mset ?new =
      mset (map (\<lambda>n. folder_path @ [dirname] @ [n]) (filter eligible files))"
    and mo: "mset (map (output_path (folder_path @ [dirname])) (filter eligible ?picked)) =
      mset (map (output_path (folder_path @ [dirname])) (filter eligible files))"
    by (simp_all only: mset_map)
  from process_dirname_success [OF assms(2,3) q assms(5)] dn mn mo show ?thesis
    unfolding k by blast
qed


lemma cluttered_run_two:
  "augment stub_env 20 [''data''] 2 cluttered 0 =
     (Finished, \<lparr>fs_of = cluttered, gen = 1, log = [Listed [''data'', ''cat'']]\<rparr>)"
  by code_simp

lemma cluttered_listing:
  "listdir cluttered [''data'', ''cat''] = Inr [''a.jpg'', ''notes.txt'', ''readme.md'']"
  by code_simp

lemma cluttered_eligible:
  "filter eligible [''a.jpg'', ''notes.txt'', ''readme.md''] = [''a.jpg'']"
  by (simp add: eligible_def endswith_def)


text \<open>
  C3, as the specification states it, fails: the folder holds one eligible image, fewer
  than \<open>quantity = 2\<close>, the sample of two entries misses it, and it is not processed.
\<close>

theorem fewer_than_quantity_counterexample:
  "listdir cluttered [''data'', ''cat''] = Inr [''a.jpg'', ''notes.txt'', ''readme.md''] \<and>
   filter eligible [''a.jpg'', ''notes.txt'', ''readme.md''] = [''a.jpg''] \<and>
   valid_choice (choice stub_env) \<and>
   fst (choice stub_env 0 [''a.jpg'', ''notes.txt'', ''readme.md''] 2) =
     [''readme.md'', ''notes.txt''] \<and>
   fst (augment stub_env 20 [''data''] 2 cluttered 0) = Finished \<and>
   [''data'', ''cat'', ''a.jpg'']
     \<notin> set (loaded (log (snd (augment stub_env 20 [''data''] 2 cluttered 0))))"
  by (simp add: cluttered_run_two cluttered_listing valid_stub_choice stub_choice_def
      eligible_def endswith_def)

lemma animals_cat_listing:
  "listdir animals [''data'', ''cat''] = Inr [''notes.txt'', ''a.jpg'', ''b.png'']"
  by code_simp


lemma animals_cat_pass_five:
  "process_dirname stub_env [''data''] 5 ''cat'' \<lparr>fs_of = animals, gen = 0, log = []\<rparr> =
     (None,
      \<lparr>fs_of =
         animals @
         [([''data'', ''cat'', ''augmented''], Dir),
          ([''data'', ''cat'', ''augmented'', ''b-aug.png''], File ''zyx''),
          ([''data'', ''cat'', ''augmented'', ''a-aug.jpg''], File ''cba'')],
       gen = 1,
       log =
         [Listed [''data'', ''cat''],
          Loaded [''data'', ''cat'', ''b.png''],
          MadeDir [''data'', ''cat'', ''augmented''],
          Wrote [''data'', ''cat'', ''augmented'', ''b-aug.png''],
          Loaded [''data'', ''cat'', ''a.jpg''],
          Wrote [''data'', ''cat'', ''augmented'', ''a-aug.jpg'']]\<rparr>)"
  by code_simp


theorem whole_listing_sampled_witness:
  "valid_choice (choice stub_env) \<and>
   listdir animals [''data'', ''cat''] = Inr [''notes.txt'', ''a.jpg'', ''b.png''] \<and>
   fst (process_dirname stub_env [''data''] 5 ''cat'' \<lparr>fs_of = animals, gen = 0, log = []\<rparr>) = None \<and>
   mset (loaded (log (snd (process_dirname stub_env [''data''] 5 ''cat''
       \<lparr>fs_of = animals, gen = 0, log = []\<rparr>)))) =
     mset (map (\<lambda>n. [''data''] @ [''cat''] @ [n])
        (filter eligible [''notes.txt'', ''a.jpg'', ''b.png'']))"
proof -
  have v: "valid_choice (choice stub_env)"
    by (simp add: valid_stub_choice)
  have l: "listdir (fs_of \<lparr>fs_of = animals, gen = 0::nat, log = []\<rparr>) ([''data''] @ [''cat'']) =
      Inr [''notes.txt'', ''a.jpg'', ''b.png'']"
    by (simp add: animals_cat_listing)
  have d: "''cat'' \<noteq> ''augmented''" by simp
  have q: "int (length [''notes.txt'', ''a.jpg'', ''b.png'']) \<le> 5"
    by simp
  from whole_listing_sampled [OF v d l q animals_cat_pass_five]
  obtain new out where "loaded (log (snd (process_dirname stub_env [''data''] 5 ''cat''
       \<lparr>fs_of = animals, gen = 0, log = []\<rparr>))) = new"
    and "mset new = mset (map (\<lambda>n. [''data''] @ [''cat''] @ [n])
        (filter eligible [''notes.txt'', ''a.jpg'', ''b.png'']))"
    by (auto simp: animals_cat_pass_five)
  then have "mset (loaded (log (snd (process_dirname stub_env [''data''] 5 ''cat''
       \<lparr>fs_of = animals, gen = 0, log = []\<rparr>)))) =
     mset (map (\<lambda>n. [''data''] @ [''cat''] @ [n])
        (filter eligible [''notes.txt'', ''a.jpg'', ''b.png'']))"
    by simp
  with v show ?thesis
    by (simp only: animals_cat_listing animals_cat_pass_five fst_conv simp_thms)
qed

subsection \<open>The listed path is built from the root\<close>

text \<open>
  C1. The claim is that the directory listed is the subdirectory met by the walk (the
  visited directory joined with the name), also below the first level. The code joins
  the name with the root instead. In the tree \<open>data/a/b/x.jpg\<close> the walk meets \<open>b\<close> in
  \<open>data/a\<close>; the run lists \<open>data/b\<close>, which does not exist, and stops with
  FileNotFoundError. \<open>data/a/b\<close> is never listed.
\<close>

theorem nested_directory_listed_under_root:
  "scan nested_tree [''data'', ''a''] = Some ([''b''], []) \<and>
   augment stub_env 20 [''data''] 1 nested_tree 0 =
     (Raised FileNotFoundError,
      \<lparr>fs_of = nested_tree, gen = 1,
       log = [Listed [''data'', ''a''], Listed [''data'', ''b'']]\<rparr>)"
  by code_simp

subsection \<open>Errors\<close>

lemma walk_loop_more_fuel:
  "walk_loop fuel env fp q pending s = (r, s') \<Longrightarrow> r \<noteq> OutOfFuel \<Longrightarrow>
   walk_loop (fuel + k) env fp q pending s = (r, s')"
proof (induction fuel env fp q pending s rule: walk_loop.induct)
  case (1 fuel env fp q s)
  then show ?case by simp
next
  case (2 env fp q dirpath pending s)
  then show ?case by simp
next
  case (3 fuel env fp q dirpath pending s)
  show ?case
  proof (cases "scan (fs_of s) dirpath")
    case None
    with 3 show ?thesis by simp
  next
    case (Some a)
    obtain dirnames filenames where a: "a = (dirnames, filenames)" by (cases a)
    obtain r1 s1 where p: "process_dirnames env fp q dirnames s = (r1, s1)"
      by (cases "process_dirnames env fp q dirnames s")
    show ?thesis
    proof (cases r1)
      case None
      with "3.prems" Some a p
      have "walk_loop fuel env fp q
              (map (\<lambda>dirname. dirpath @ [dirname]) dirnames @ pending) s1 = (r, s')"
        by simp
      from "3.IH"(2) [OF Some a [symmetric] p [symmetric] None this "3.prems"(2)]
      show ?thesis using Some a p None by simp
    next
      case (Some e')
      with "3.prems" \<open>scan (fs_of s) dirpath = Some a\<close> a p show ?thesis by simp
    qed
  qed
qed

text \<open>
  The fuel only bounds the walk: a run that ends within its fuel ends the same way,
  in the same state, with any larger fuel.
\<close>

lemma augment_more_fuel:
  "augment env fuel fp q f g = (r, s') \<Longrightarrow> r \<noteq> OutOfFuel \<Longrightarrow>
   augment env (fuel + k) fp q f g = (r, s')"
  unfolding augment_def by (rule walk_loop_more_fuel)

lemma process_files_append:
  "process_files env nested (xs @ ys) s =
     (case process_files env nested xs s of
        (Some e, s') \<Rightarrow> (Some e, s')
      | (None, s') \<Rightarrow> process_files env nested ys s')"
  by (induction xs arbitrary: s) (auto split: prod.splits option.splits)

lemma process_dirnames_append:
  "process_dirnames env fp q (xs @ ys) s =
     (case process_dirnames env fp q xs s of
        (Some e, s') \<Rightarrow> (Some e, s')
      | (None, s') \<Rightarrow> process_dirnames env fp q ys s')"
  by (induction xs arbitrary: s) (auto split: prod.splits option.splits)

lemma walk_loop_abort:
  "walk_loop fuel env fp q pending s = (Raised e, s') \<Longrightarrow>
   walk_loop fuel env fp q (pending @ later) s = (Raised e, s')"
proof (induction fuel env fp q pending s rule: walk_loop.induct)
  case (1 fuel env fp q s)
  then show ?case by simp
next
  case (2 env fp q dirpath pending s)
  then show ?case by simp
next
  case (3 fuel env fp q dirpath pending s)
  show ?case
  proof (cases "scan (fs_of s) dirpath")
    case None
    with 3 show ?thesis by simp
  next
    case (Some a)
    obtain dirnames filenames where a: "a = (dirnames, filenames)" by (cases a)
    obtain r s1 where p: "process_dirnames env fp q dirnames s = (r, s1)"
      by (cases "process_dirnames env fp q dirnames s")
    show ?thesis
    proof (cases r)
      case None
      with "3.prems" Some a p
      have "walk_loop fuel env fp q
              (map (\<lambda>dirname. dirpath @ [dirname]) dirnames @ pending) s1 = (Raised e, s')"
        by simp
      from "3.IH"(2) [OF Some a [symmetric] p [symmetric] None this]
      show ?thesis using Some a p None by simp
    next
      case (Some e')
      with "3.prems" \<open>scan (fs_of s) dirpath = Some a\<close> a p show ?thesis by simp
    qed
  qed
qed

lemma missing_root:
  "\<not> path_isdir f fp \<Longrightarrow>
   augment env (Suc fuel) fp q f g = (Finished, \<lparr>fs_of = f, gen = g, log = []\<rparr>)"
  by (simp add: augment_def scan_def)

text \<open>
  C9, as amended. An exception stops the run where it is raised: when the listing of a
  category folder, the transform or the write raises, the pass over the folder raises;
  the files sampled after the failing one are not processed, no later category is
  listed, the directories still pending are not visited, and the state returned is the
  state at the failing call. The other failures raise nothing, and the run goes on. A
  root that cannot be scanned is passed over by the walk: the run ends normally having
  done nothing. Whatever the read returns, the empty image of a file that cannot be read
  or decoded included, goes untested to the making of the output directory, the
  transform and the write. A write that returns without an exception, having written
  or not, is followed by the next sampled file.
\<close>

theorem first_error_aborts:
  "(dirname \<noteq> ''augmented'' \<and> listdir (fs_of s) (folder_path @ [dirname]) = Inl e \<longrightarrow>
      process_dirname env folder_path quantity dirname s =
        (Some e, record_event (Listed (folder_path @ [dirname])) s)) \<and>
   (eligible filename \<and> imread env (fs_of s) (nested @ [filename]) = Inr img \<and>
    ensure_dir (nested @ [''augmented'']) (record_event (Loaded (nested @ [filename])) s) =
      (None, s1) \<and>
    transform env img = Inl e \<longrightarrow>
      process_file env nested filename s = (Some e, s1)) \<and>
   (eligible filename \<and> imread env (fs_of s) (nested @ [filename]) = Inr img \<and>
    ensure_dir (nested @ [''augmented'']) (record_event (Loaded (nested @ [filename])) s) =
      (None, s1) \<and>
    transform env img = Inr augmented_img \<and>
    fst (imwrite env (output_path nested filename) augmented_img (fs_of s1)) = Some e \<longrightarrow>
      fst (process_file env nested filename s) = Some e) \<and>
   (dirname \<noteq> ''augmented'' \<and> listdir (fs_of s) (folder_path @ [dirname]) = Inr files \<and>
    sample env files quantity (record_event (Listed (folder_path @ [dirname])) s) =
      Inr (picked, s1) \<and>
    process_files env (folder_path @ [dirname]) picked s1 = (Some e, s2) \<longrightarrow>
      process_dirname env folder_path quantity dirname s = (Some e, s2)) \<and>
   (process_files env nested before s = (None, s1) \<and>
    process_file env nested filename s1 = (Some e, s2) \<longrightarrow>
      process_files env nested (before @ filename # rest) s = (Some e, s2)) \<and>
   (process_dirnames env folder_path quantity before_d s = (None, s1) \<and>
    process_dirname env folder_path quantity dirname s1 = (Some e, s2) \<longrightarrow>
      process_dirnames env folder_path quantity (before_d @ dirname # rest_d) s = (Some e, s2)) \<and>
   (scan (fs_of s) dirpath = Some (dirnames, filenames) \<and>
    process_dirnames env folder_path quantity dirnames s = (Some e, s2) \<longrightarrow>
      walk_loop (Suc fuel) env folder_path quantity (dirpath # pending) s = (Raised e, s2)) \<and>
   (walk_loop fuel env folder_path quantity pending s = (Raised e, s2) \<longrightarrow>
      walk_loop fuel env folder_path quantity (pending @ later) s = (Raised e, s2)) \<and>
   (\<not> path_isdir f folder_path \<longrightarrow>
      augment env (Suc fuel) folder_path quantity f g =
        (Finished, \<lparr>fs_of = f, gen = g, log = []\<rparr>)) \<and>
   (eligible filename \<and> imread env (fs_of s) (nested @ [filename]) = Inr img \<and>
    ensure_dir (nested @ [''augmented'']) (record_event (Loaded (nested @ [filename])) s) =
      (None, s1) \<longrightarrow>
      process_file env nested filename s =
        transform_and_write env (output_path nested filename) img s1) \<and>
   (transform env img = Inr augmented_img \<and>
    imwrite env target augmented_img (fs_of s) = (None, f') \<longrightarrow>
      transform_and_write env target img s =
        (None, (record_event (Wrote target) s)\<lparr>fs_of := f'\<rparr>)) \<and>
   (process_file env nested filename s = (None, s1) \<longrightarrow>
      process_files env nested (filename # rest) s = process_files env nested rest s1)"
proof (intro conjI impI)
  assume "dirname \<noteq> ''augmented'' \<and> listdir (fs_of s) (folder_path @ [dirname]) = Inl e"
  then show "process_dirname env folder_path quantity dirname s =
      (Some e, record_event (Listed (folder_path @ [dirname])) s)"
    by (simp add: process_dirname_def Let_def)
next
  assume "eligible filename \<and> imread env (fs_of s) (nested @ [filename]) = Inr img \<and>
    ensure_dir (nested @ [''augmented'']) (record_event (Loaded (nested @ [filename])) s) =
      (None, s1) \<and>
    transform env img = Inl e"
  moreover from this obtain name where "output_name filename = Inr name"
    by (auto simp: output_name_dot eligible_has_dot)
  ultimately show "process_file env nested filename s = (Some e, s1)"
    by (simp add: process_file_def transform_and_write_def Let_def)
next
  assume a: "eligible filename \<and> imread env (fs_of s) (nested @ [filename]) = Inr img \<and>
    ensure_dir (nested @ [''augmented'']) (record_event (Loaded (nested @ [filename])) s) =
      (None, s1) \<and>
    transform env img = Inr augmented_img \<and>
    fst (imwrite env (output_path nested filename) augmented_img (fs_of s1)) = Some e"
  then obtain name where n: "output_name filename = Inr name"
    by (auto simp: output_name_dot eligible_has_dot)
  then have "output_path nested filename = (nested @ [''augmented'']) @ [name]"
    by (simp add: output_path_def)
  with a n show "fst (process_file env nested filename s) = Some e"
    by (auto simp: process_file_def transform_and_write_def Let_def split: prod.splits)
next
  assume "dirname \<noteq> ''augmented'' \<and> listdir (fs_of s) (folder_path @ [dirname]) = Inr files \<and>
    sample env files quantity (record_event (Listed (folder_path @ [dirname])) s) =
      Inr (picked, s1) \<and>
    process_files env (folder_path @ [dirname]) picked s1 = (Some e, s2)"
  then show "process_dirname env folder_path quantity dirname s = (Some e, s2)"
    by (simp add: process_dirname_def Let_def)
next
  assume "process_files env nested before s = (None, s1) \<and>
    process_file env nested filename s1 = (Some e, s2)"
  then show "process_files env nested (before @ filename # rest) s = (Some e, s2)"
    by (simp add: process_files_append)
next
  assume "process_dirnames env folder_path quantity before_d s = (None, s1) \<and>
    process_dirname env folder_path quantity dirname s1 = (Some e, s2)"
  then show "process_dirnames env folder_path quantity (before_d @ dirname # rest_d) s =
      (Some e, s2)"
    by (simp add: process_dirnames_append)
next
  assume "scan (fs_of s) dirpath = Some (dirnames, filenames) \<and>
    process_dirnames env folder_path quantity dirnames s = (Some e, s2)"
  then show "walk_loop (Suc fuel) env folder_path quantity (dirpath # pending) s = (Raised e, s2)"
    by simp
next
  assume "walk_loop fuel env folder_path quantity pending s = (Raised e, s2)"
  then show "walk_loop fuel env folder_path quantity (pending @ later) s = (Raised e, s2)"
    by (rule walk_loop_abort)
next
  assume "\<not> path_isdir f folder_path"
  then show "augment env (Suc fuel) folder_path quantity f g =
      (Finished, \<lparr>fs_of = f, gen = g, log = []\<rparr>)"
    by (rule missing_root)
next
  assume a: "eligible filename \<and> imread env (fs_of s) (nested @ [filename]) = Inr img \<and>
    ensure_dir (nested @ [''augmented'']) (record_event (Loaded (nested @ [filename])) s) =
      (None, s1)"
  then obtain name where n: "output_name filename = Inr name"
    by (auto simp: output_name_dot eligible_has_dot)
  then have "output_path nested filename = (nested @ [''augmented'']) @ [name]"
    by (simp add: output_path_def)
  with a n show "process_file env nested filename s =
      transform_and_write env (output_path nested filename) img s1"
    by (simp add: process_file_def Let_def)
next
  assume "transform env img = Inr augmented_img \<and>
    imwrite env target augmented_img (fs_of s) = (None, f')"
  then show "transform_and_write env target img s =
      (None, (record_event (Wrote target) s)\<lparr>fs_of := f'\<rparr>)"
    by (simp add: transform_and_write_def Let_def)
next
  assume "process_file env nested filename s = (None, s1)"
  then show "process_files env nested (filename # rest) s = process_files env nested rest s1"
    by simp
qed

lemma nested_pair_run:
  "augment stub_env 20 [''data''] 1 nested_pair 0 =
     (Raised FileNotFoundError,
      \<lparr>fs_of =
         nested_pair @
         [([''data'', ''c'', ''augmented''], Dir),
          ([''data'', ''c'', ''augmented'', ''c-aug.jpg''], File ''ccc'')],
       gen = 2,
       log =
         [Listed [''data'', ''a''],
          Listed [''data'', ''c''],
          Loaded [''data'', ''c'', ''c.jpg''],
          MadeDir [''data'', ''c'', ''augmented''],
          Wrote [''data'', ''c'', ''augmented'', ''c-aug.jpg''],
          Listed [''data'', ''b'']]\<rparr>)"
  by code_simp

lemma broken_run:
  "augment stub_env 20 [''data''] 5 broken 0 =
     (Raised (CollaboratorError ''empty image''),
      \<lparr>fs_of = broken @ [([''data'', ''cat'', ''augmented''], Dir)],
       gen = 1,
       log =
         [Listed [''data'', ''cat''],
          Loaded [''data'', ''cat'', ''bad.png''],
          MadeDir [''data'', ''cat'', ''augmented''],
          Wrote [''data'', ''cat'', ''augmented'', ''bad-aug.png'']]\<rparr>)"
  by code_simp

lemma blocked_run:
  "augment stub_env 20 [''data''] 5 blocked 0 =
     (Finished,
      \<lparr>fs_of = blocked,
       gen = 1,
       log =
         [Listed [''data'', ''cat''],
          Loaded [''data'', ''cat'', ''b.png''],
          Wrote [''data'', ''cat'', ''augmented'', ''b-aug.png''],
          Loaded [''data'', ''cat'', ''a.jpg''],
          Wrote [''data'', ''cat'', ''augmented'', ''a-aug.jpg'']]\<rparr>)"
  by code_simp

theorem first_error_aborts_witness:
  "scan nested_pair [''data'', ''a''] = Some ([''b'', ''c''], []) \<and>
   listdir nested_pair [''data'', ''b''] = Inl FileNotFoundError \<and>
   process_dirnames stub_env [''data''] 1 [''b'', ''c'']
       \<lparr>fs_of = nested_pair, gen = 0, log = []\<rparr> =
     (Some FileNotFoundError,
      \<lparr>fs_of = nested_pair, gen = 0, log = [Listed [''data'', ''b'']]\<rparr>) \<and>
   walk_loop (Suc 0) stub_env [''data''] 1 [[''data'', ''a''], [''data'', ''c'']]
       \<lparr>fs_of = nested_pair, gen = 0, log = []\<rparr> =
     (Raised FileNotFoundError,
      \<lparr>fs_of = nested_pair, gen = 0, log = [Listed [''data'', ''b'']]\<rparr>) \<and>
   fst (augment stub_env 20 [''data''] 1 nested_pair 0) = Raised FileNotFoundError \<and>
   loaded (log (snd (augment stub_env 20 [''data''] 1 nested_pair 0))) =
     [[''data'', ''c'', ''c.jpg'']]"
proof -
  let ?s = "\<lparr>fs_of = nested_pair, gen = 0::nat, log = []\<rparr>"
  let ?s' = "record_event (Listed ([''data''] @ [''b''])) ?s"
  let ?e = "FileNotFoundError"
  note inst = first_error_aborts
    [where env = stub_env and folder_path = "[''data'']" and quantity = 1
       and dirname = "''b''" and e = "?e" and before_d = "[]" and rest_d = "[''c'']"
       and dirpath = "[''data'', ''a'']" and dirnames = "[''b'', ''c'']" and filenames = "[]"
       and pending = "[[''data'', ''c'']]" and fuel = 0]
  have sc: "scan nested_pair [''data'', ''a''] = Some ([''b'', ''c''], [])"
    by code_simp
  have ls: "listdir nested_pair [''data'', ''b''] = Inl ?e"
    by code_simp
  have d: "process_dirname stub_env [''data''] 1 ''b'' ?s = (Some ?e, ?s')"
    using inst [where s = "?s"] ls by simp
  have ds: "process_dirnames stub_env [''data''] 1 ([] @ ''b'' # [''c'']) ?s = (Some ?e, ?s')"
    using inst [where s = "?s" and ?s1.0 = "?s" and ?s2.0 = "?s'"] d by simp
  have w: "walk_loop (Suc 0) stub_env [''data''] 1 ([''data'', ''a''] # [[''data'', ''c'']]) ?s =
      (Raised ?e, ?s')"
    using inst [where s = "?s" and ?s2.0 = "?s'"] sc ds by simp
  have s': "?s' = \<lparr>fs_of = nested_pair, gen = 0, log = [Listed [''data'', ''b'']]\<rparr>"
    by (simp add: record_event_def)
  from sc ls ds w show ?thesis
    unfolding s' by (simp add: nested_pair_run)
qed

text \<open>
  C9, as the specification states it, fails in three ways. A missing root directory:
  the run finishes and no error is raised. An image that cannot be decoded: the read
  returns no image and raises nothing, and the run goes on to make the output directory
  and to call the write, where it stops. A write that cannot be performed, the name
  \<open>augmented\<close> being taken by a file: nothing is written and nothing is raised, the next
  sampled image is processed, and the run finishes.
\<close>

theorem failures_without_abort_counterexample:
  "\<not> path_exists animals [''nowhere''] \<and>
   augment stub_env 20 [''nowhere''] 5 animals 0 =
     (Finished, \<lparr>fs_of = animals, gen = 0, log = []\<rparr>) \<and>
   imread stub_env broken [''data'', ''cat'', ''bad.png''] = Inr None \<and>
   augment stub_env 20 [''data''] 5 broken 0 =
     (Raised (CollaboratorError ''empty image''),
      \<lparr>fs_of = broken @ [([''data'', ''cat'', ''augmented''], Dir)],
       gen = 1,
       log =
         [Listed [''data'', ''cat''],
          Loaded [''data'', ''cat'', ''bad.png''],
          MadeDir [''data'', ''cat'', ''augmented''],
          Wrote [''data'', ''cat'', ''augmented'', ''bad-aug.png'']]\<rparr>) \<and>
   imwrite stub_env [''data'', ''cat'', ''augmented'', ''b-aug.png''] (Some ''zyx'') blocked =
     (None, blocked) \<and>
   augment stub_env 20 [''data''] 5 blocked 0 =
     (Finished,
      \<lparr>fs_of = blocked,
       gen = 1,
       log =
         [Listed [''data'', ''cat''],
          Loaded [''data'', ''cat'', ''b.png''],
          Wrote [''data'', ''cat'', ''augmented'', ''b-aug.png''],
          Loaded [''data'', ''cat'', ''a.jpg''],
          Wrote [''data'', ''cat'', ''augmented'', ''a-aug.jpg'']]\<rparr>)"
  by code_simp

end
